theory Spec2Isabelle
  imports Main "HOL-Library.Product_Lexorder"
begin

section \<open>Cells, errors and board limits\<close>

text \<open>
  A cell is a pair \<open>(x, y)\<close> of Python integers. The exceptions that the modelled
  code can raise are values of \<open>error\<close>; a function that can raise returns
  \<open>error + 'a\<close> with \<open>Inl\<close> for the exception.
\<close>

type_synonym cell = "int \<times> int"

datatype error = ValueError | TypeError | RecursionError | IndexError

text \<open>
  \<open>Ship.__init__\<close> takes \<open>board_width=float("inf")\<close> and
  \<open>board_height=float("inf")\<close> by default and integers otherwise. A limit is
  either of the two, and \<open>within n l\<close> is the comparison \<open>n <= l\<close>.
\<close>

datatype limit = Bounded int | Unbounded

fun within :: "int \<Rightarrow> limit \<Rightarrow> bool" where
  "within n (Bounded w) = (n \<le> w)"
| "within n Unbounded = True"

section \<open>Ship (battleship/ship.py)\<close>

record ship =
  x_start :: int
  y_start :: int
  x_end :: int
  y_end :: int
  cells :: "cell set"
  damaged_cells :: "cell set"
  board_width :: limit
  board_height :: limit

definition is_vertical :: "ship \<Rightarrow> bool" where
  "is_vertical self = (x_start self = x_end self)"

definition is_horizontal :: "ship \<Rightarrow> bool" where
  "is_horizontal self = (y_start self = y_end self)"

text \<open>
  \<open>get_cells\<close>: \<open>range(n)\<close> is the list \<open>[0..n - 1]\<close>; the last branch is
  the \<open>raise ValueError\<close>.
\<close>

definition get_cells :: "ship \<Rightarrow> error + cell set" where
  "get_cells self =
     (if is_vertical self \<and> is_horizontal self then Inr {(x_start self, y_start self)}
      else if is_horizontal self then
        Inr (set (map (\<lambda>x_coordinate. (x_start self + x_coordinate, y_start self))
                      [0..x_end self - x_start self + 1 - 1]))
      else if is_vertical self then
        Inr (set (map (\<lambda>y_coordinate. (x_start self, y_start self + y_coordinate))
                      [0..y_end self - y_start self + 1 - 1]))
      else Inl ValueError)"

text \<open>
  \<open>Ship.__init__\<close>. The record \<open>self\<close> of the body holds the attributes assigned
  before \<open>get_cells\<close> runs (it reads the four coordinates only); \<open>cells\<close> is
  assigned from its result.
\<close>

definition Ship_init :: "cell \<Rightarrow> cell \<Rightarrow> bool \<Rightarrow> limit \<Rightarrow> limit \<Rightarrow> error + ship" where
  "Ship_init start end should_validate bw bh =
     (let self = \<lparr>x_start = min (fst start) (fst end), y_start = min (snd start) (snd end),
                  x_end = max (fst start) (fst end), y_end = max (snd start) (snd end),
                  cells = {}, damaged_cells = {}, board_width = bw, board_height = bh\<rparr>
      in if should_validate \<and> \<not> is_horizontal self \<and> \<not> is_vertical self then Inl ValueError
         else (case get_cells self of
                 Inl e \<Rightarrow> Inl e
               | Inr cs \<Rightarrow> Inr (self\<lparr>cells := cs\<rparr>)))"

definition length_ship :: "ship \<Rightarrow> nat" where
  "length_ship self = card (cells self)"

definition is_occupying_cell :: "ship \<Rightarrow> cell \<Rightarrow> bool" where
  "is_occupying_cell self cell = (cell \<in> cells self)"

text \<open>\<open>receive_damage\<close> returns \<open>ship_was_hit\<close> and the ship as it has become.\<close>

definition receive_damage :: "ship \<Rightarrow> cell \<Rightarrow> bool \<times> ship" where
  "receive_damage self cell =
     (if is_occupying_cell self cell
      then (True, self\<lparr>damaged_cells := insert cell (damaged_cells self)\<rparr>)
      else (False, self))"

definition count_damaged_cells :: "ship \<Rightarrow> nat" where
  "count_damaged_cells self = card (damaged_cells self)"

definition has_sunk :: "ship \<Rightarrow> bool" where
  "has_sunk self = (damaged_cells self = cells self)"

text \<open>
  \<open>Ship.get_neighbours\<close>. The booleans \<open>right\<close>, \<open>left\<close>, \<open>bottom\<close> and
  \<open>top\<close> stand for "the variable is not \<open>None\<close>". The last condition is
  \<open>bottom\<close> and \<open>right\<close>, as the source has it.
\<close>

definition get_neighbours :: "ship \<Rightarrow> cell \<Rightarrow> cell list" where
  "get_neighbours self cell =
     (let x = fst cell; y = snd cell;
          right = within x (board_width self);
          left = (x \<ge> 2);
          bottom = within y (board_height self);
          top = (y \<ge> 2)
      in (if right then [(x + 1, y)] else [])
       @ (if left then [(x - 1, y)] else [])
       @ (if bottom then [(x, y + 1)] else [])
       @ (if top then [(x, y - 1)] else [])
       @ (if top \<and> right then [(x + 1, y - 1)] else [])
       @ (if top \<and> left then [(x - 1, y - 1)] else [])
       @ (if bottom \<and> right then [(x + 1, y + 1)] else [])
       @ (if bottom \<and> right then [(x - 1, y + 1)] else []))"

definition is_near_cell :: "ship \<Rightarrow> cell \<Rightarrow> bool" where
  "is_near_cell self cell =
     (\<exists>cell_of_ship \<in> cells self. cell \<in> set (get_neighbours self cell_of_ship))"

definition is_near_ship :: "ship \<Rightarrow> ship \<Rightarrow> bool" where
  "is_near_ship self other_ship =
     (\<exists>cell_of_other_ship \<in> cells other_ship. is_near_cell self cell_of_other_ship)"

text \<open>A sequence of \<open>receive_damage\<close> calls on one ship, the results dropped.\<close>

fun receive_damages :: "ship \<Rightarrow> cell list \<Rightarrow> ship" where
  "receive_damages self [] = self"
| "receive_damages self (cell # rest) = receive_damages (snd (receive_damage self cell)) rest"
section \<open>Geometry of the specification\<close>

text \<open>
  The specification's notion of nearness, in its own words: two distinct cells are near
  each other iff their coordinates differ by at most one along each axis.
\<close>

definition adjacent :: "cell \<Rightarrow> cell \<Rightarrow> bool" where
  "adjacent a b = (a \<noteq> b \<and> \<bar>fst a - fst b\<bar> \<le> 1 \<and> \<bar>snd a - snd b\<bar> \<le> 1)"

text \<open>
  A cell inside the board of a ship (the limits the ship was built with), and a ship
  whose occupied cells all lie inside it.
\<close>

definition inside_board :: "ship \<Rightarrow> cell \<Rightarrow> bool" where
  "inside_board self cell =
     (1 \<le> fst cell \<and> within (fst cell) (board_width self) \<and>
      1 \<le> snd cell \<and> within (snd cell) (board_height self))"

definition cells_within_bounds :: "ship \<Rightarrow> bool" where
  "cells_within_bounds self = (\<forall>cell \<in> cells self. inside_board self cell)"

section \<open>Randomness\<close>

text \<open>
  The calls of Python's \<open>random\<close> module read a list of raw draws, handed from call
  to call: every run of the program is the run on some list. A computation that
  draws returns an \<open>outcome\<close>: its result with the draws that are left, the
  exception it raised, or \<open>Starved\<close> when it asked for a draw and none was left (the
  list was too short for the run to come to its end).
\<close>

datatype 'a outcome = Ok 'a | Raised error | Starved

text \<open>
  \<open>random.randint(a, b)\<close> raises \<open>ValueError\<close> on an empty range and otherwise
  returns an integer of \<open>a..b\<close>; the raw draw \<open>r\<close> selects \<open>a + r mod (b - a + 1)\<close>,
  so every integer of the range is returned for some draw.
\<close>

definition randint :: "int \<Rightarrow> int \<Rightarrow> int list \<Rightarrow> (int \<times> int list) outcome" where
  "randint a b rng =
     (if b < a then Raised ValueError
      else (case rng of
              [] \<Rightarrow> Starved
            | r # rest \<Rightarrow> Ok (a + r mod (b - a + 1), rest)))"

section \<open>ShipFactory (battleship/ship.py)\<close>

text \<open>
  \<open>ships_per_length\<close> is a Python \<open>dict\<close>; the model keeps its items in insertion
  order, the order in which \<open>generate_ships\<close> iterates over them.
\<close>

record ship_factory =
  board_size :: "int \<times> int"
  ships_per_length :: "(int \<times> int) list"

definition ShipFactory_init :: "int \<times> int \<Rightarrow> (int \<times> int) list option \<Rightarrow> ship_factory" where
  "ShipFactory_init given_size per_length =
     \<lparr>board_size = given_size,
      ships_per_length =
        (case per_length of
           None \<Rightarrow> [(1, 1), (2, 1), (3, 1), (4, 1), (5, 1)]
         | Some given \<Rightarrow> given)\<rparr>"

definition generate_random_coordinates ::
  "ship_factory \<Rightarrow> int \<Rightarrow> int list \<Rightarrow> ((cell \<times> cell) \<times> int list) outcome" where
  "generate_random_coordinates self dimension rng =
     (case randint 0 1 rng of
        Raised e \<Rightarrow> Raised e
      | Starved \<Rightarrow> Starved
      | Ok (condition_vertical, rng1) \<Rightarrow>
          if condition_vertical \<noteq> 0 then
            (case randint 1 (fst (board_size self)) rng1 of
               Raised e \<Rightarrow> Raised e
             | Starved \<Rightarrow> Starved
             | Ok (x_start', rng2) \<Rightarrow>
                 (case randint 1 (snd (board_size self) - dimension + 1) rng2 of
                    Raised e \<Rightarrow> Raised e
                  | Starved \<Rightarrow> Starved
                  | Ok (y_start', rng3) \<Rightarrow>
                      Ok (((x_start', y_start'), (x_start', y_start' + dimension - 1)), rng3)))
          else
            (case randint 1 (fst (board_size self) - dimension + 1) rng1 of
               Raised e \<Rightarrow> Raised e
             | Starved \<Rightarrow> Starved
             | Ok (x_start', rng2) \<Rightarrow>
                 (case randint 1 (snd (board_size self)) rng2 of
                    Raised e \<Rightarrow> Raised e
                  | Starved \<Rightarrow> Starved
                  | Ok (y_start', rng3) \<Rightarrow>
                      Ok (((x_start', y_start'), (x_start' + dimension - 1, y_start')), rng3))))"

definition is_ship_in_bound :: "ship_factory \<Rightarrow> ship \<Rightarrow> bool" where
  "is_ship_in_bound self ship =
     (1 \<le> x_start ship \<and> x_start ship \<le> fst (board_size self) \<and>
      1 \<le> x_end ship \<and> x_end ship \<le> fst (board_size self) \<and>
      1 \<le> y_start ship \<and> y_start ship \<le> snd (board_size self) \<and>
      1 \<le> y_end ship \<and> y_end ship \<le> snd (board_size self))"

definition are_overlapping :: "ship \<Rightarrow> ship \<Rightarrow> bool" where
  "are_overlapping ship other_ship = (\<exists>cell_of_ship \<in> cells ship. cell_of_ship \<in> cells other_ship)"

text \<open>The loop of \<open>check_coordinates\<close> over \<open>ships\<close>, with its two early returns.\<close>

fun check_against :: "ship list \<Rightarrow> ship \<Rightarrow> bool" where
  "check_against [] ship_to_test = True"
| "check_against (ship # rest) ship_to_test =
     (if are_overlapping ship ship_to_test then False
      else if is_near_ship ship ship_to_test then False
      else check_against rest ship_to_test)"

definition check_coordinates :: "ship_factory \<Rightarrow> ship list \<Rightarrow> ship option \<Rightarrow> bool" where
  "check_coordinates self ships ship_to_test =
     (case ship_to_test of
        None \<Rightarrow> False
      | Some tested \<Rightarrow>
          if \<not> is_ship_in_bound self tested then False
          else check_against ships tested)"

definition max_iterations :: int where
  "max_iterations = 10 ^ 3"

text \<open>
  A loop of \<open>generate_ships\<close> either comes to its end (\<open>Done\<close>) or reaches the
  statement \<open>ships = self.generate_ships(); return ships\<close> (\<open>GiveUp\<close>).
\<close>

datatype 'a attempt = Done 'a | GiveUp

text \<open>
  The \<open>while\<close> loop that places one ship, from the loop test on. \<open>ship_to_test\<close> is
  \<open>None\<close> or the ship tested last; the loop ends with the ship that passed
  \<open>check_coordinates\<close> (which \<open>None\<close> does not pass) and with the value of
  \<open>number_of_iterations\<close>, or gives up when \<open>number_of_iterations\<close> has passed
  \<open>max_iterations\<close>.
\<close>

function place_ship ::
  "ship_factory \<Rightarrow> ship list \<Rightarrow> ship option \<Rightarrow> int \<Rightarrow> int \<Rightarrow> int list
    \<Rightarrow> ((ship \<times> int) attempt \<times> int list) outcome" where
  "place_ship self ships ship_to_test ship_length number_of_iterations rng =
     (case (if check_coordinates self ships ship_to_test then ship_to_test else None) of
        Some accepted \<Rightarrow> Ok (Done (accepted, number_of_iterations), rng)
      | None \<Rightarrow>
          (case generate_random_coordinates self ship_length rng of
             Raised e \<Rightarrow> Raised e
           | Starved \<Rightarrow> Starved
           | Ok ((start, end), rng') \<Rightarrow>
               (case Ship_init start end True (Bounded (fst (board_size self)))
                                              (Bounded (snd (board_size self))) of
                  Inl e \<Rightarrow> Raised e
                | Inr new_ship \<Rightarrow>
                    if number_of_iterations + 1 > max_iterations then Ok (GiveUp, rng')
                    else place_ship self ships (Some new_ship) ship_length
                           (number_of_iterations + 1) rng')))"
  by pat_completeness auto
termination
  by (relation "measure (\<lambda>(self, ships, ship_to_test, ship_length, number_of_iterations, rng).
                  nat (max_iterations + 1 - number_of_iterations))") auto

text \<open>
  The loop \<open>for ship_nb in range(number_of_ships)\<close>, with the iterations that are
  left as a natural number, and the loop over the items of \<open>ships_per_length\<close>.
\<close>

fun place_number_of_ships ::
  "ship_factory \<Rightarrow> int \<Rightarrow> nat \<Rightarrow> ship list \<Rightarrow> ship option \<Rightarrow> int list
    \<Rightarrow> ((ship list \<times> ship option) attempt \<times> int list) outcome" where
  "place_number_of_ships self ship_length 0 ships ship_to_test rng =
     Ok (Done (ships, ship_to_test), rng)"
| "place_number_of_ships self ship_length (Suc left) ships ship_to_test rng =
     (case place_ship self ships ship_to_test ship_length 0 rng of
        Raised e \<Rightarrow> Raised e
      | Starved \<Rightarrow> Starved
      | Ok (GiveUp, rng') \<Rightarrow> Ok (GiveUp, rng')
      | Ok (Done (accepted, n), rng') \<Rightarrow>
          place_number_of_ships self ship_length left (ships @ [accepted]) (Some accepted) rng')"

fun place_ships_per_length ::
  "ship_factory \<Rightarrow> (int \<times> int) list \<Rightarrow> ship list \<Rightarrow> ship option \<Rightarrow> int list
    \<Rightarrow> ((ship list \<times> ship option) attempt \<times> int list) outcome" where
  "place_ships_per_length self [] ships ship_to_test rng = Ok (Done (ships, ship_to_test), rng)"
| "place_ships_per_length self ((ship_length, number_of_ships) # items) ships ship_to_test rng =
     (case place_number_of_ships self ship_length (nat number_of_ships) ships ship_to_test rng of
        Raised e \<Rightarrow> Raised e
      | Starved \<Rightarrow> Starved
      | Ok (GiveUp, rng') \<Rightarrow> Ok (GiveUp, rng')
      | Ok (Done (ships', ship_to_test'), rng') \<Rightarrow>
          place_ships_per_length self items ships' ship_to_test' rng')"

text \<open>
  \<open>generate_ships\<close>: one pass of the loops over an empty list, and on \<open>GiveUp\<close> the
  call \<open>self.generate_ships()\<close>, whose result is returned. The call reads the draws
  that the abandoned pass has left. It is nested in the call that gave up, and the
  interpreter raises \<open>RecursionError\<close> when the calls are nested too deep: the first
  argument is the number of nested calls of \<open>generate_ships\<close> that the interpreter
  still allows (a call is allowed when there is room for it and for the calls that
  one pass makes).
\<close>

fun generate_ships :: "nat \<Rightarrow> ship_factory \<Rightarrow> int list \<Rightarrow> ship list outcome" where
  "generate_ships 0 self rng = Raised RecursionError"
| "generate_ships (Suc depth) self rng =
     (case place_ships_per_length self (ships_per_length self) [] None rng of
        Raised e \<Rightarrow> Raised e
      | Starved \<Rightarrow> Starved
      | Ok (GiveUp, rng') \<Rightarrow> generate_ships depth self rng'
      | Ok (Done (ships, ship_to_test), rng') \<Rightarrow> Ok ships)"

declare place_ship.simps [simp del]

lemma randint_shorter:
  "randint a b rng = Ok (v, rng') \<Longrightarrow> length rng = Suc (length rng')"
  by (auto simp: randint_def split: if_splits list.splits)

lemma generate_random_coordinates_shorter:
  assumes "generate_random_coordinates self dimension rng = Ok (se, rng')"
  shows "length rng = length rng' + 3"
  using assms unfolding generate_random_coordinates_def
  by (auto split: outcome.splits if_splits dest!: randint_shorter)

lemma place_ship_accept:
  "check_coordinates self ships (Some tested)
    \<Longrightarrow> place_ship self ships (Some tested) l n rng = Ok (Done (tested, n), rng)"
  by (simp add: place_ship.simps)

lemma place_ship_retry:
  "\<not> check_coordinates self ships st
    \<Longrightarrow> place_ship self ships st l n rng =
       (case generate_random_coordinates self l rng of
          Raised e \<Rightarrow> Raised e
        | Starved \<Rightarrow> Starved
        | Ok ((start, stop), rng') \<Rightarrow>
            (case Ship_init start stop True (Bounded (fst (board_size self)))
                                            (Bounded (snd (board_size self))) of
               Inl e \<Rightarrow> Raised e
             | Inr new_ship \<Rightarrow>
                 if n + 1 > max_iterations then Ok (GiveUp, rng')
                 else place_ship self ships (Some new_ship) l (n + 1) rng'))"
  by (subst place_ship.simps) simp

lemma check_coordinates_None [simp]: "\<not> check_coordinates self ships None"
  by (simp add: check_coordinates_def)

text \<open>The cases of one round of the loop, for proofs by induction on the loop.\<close>

lemma place_ship_cases:
  assumes "place_ship self ships st l n rng = Ok (r, rng')"
  obtains (accept) tested where "st = Some tested" "check_coordinates self ships st"
      "r = Done (tested, n)" "rng' = rng"
  | (give_up) start stop new_ship where "\<not> check_coordinates self ships st"
      "generate_random_coordinates self l rng = Ok ((start, stop), rng')"
      "Ship_init start stop True (Bounded (fst (board_size self)))
         (Bounded (snd (board_size self))) = Inr new_ship"
      "n + 1 > max_iterations" "r = GiveUp"
  | (retry) start stop rng1 new_ship where "\<not> check_coordinates self ships st"
      "generate_random_coordinates self l rng = Ok ((start, stop), rng1)"
      "Ship_init start stop True (Bounded (fst (board_size self)))
         (Bounded (snd (board_size self))) = Inr new_ship"
      "\<not> n + 1 > max_iterations"
      "place_ship self ships (Some new_ship) l (n + 1) rng1 = Ok (r, rng')"
proof (cases "check_coordinates self ships st")
  case True
  then obtain tested where t: "st = Some tested"
    by (cases st) simp_all
  with True assms have "r = Done (tested, n)" "rng' = rng"
    by (simp_all add: place_ship_accept)
  with t True show ?thesis by (rule accept)
next
  case False
  note eq = assms [unfolded place_ship_retry [OF False]]
  then obtain start stop rng1 where
    g: "generate_random_coordinates self l rng = Ok ((start, stop), rng1)"
    by (cases "generate_random_coordinates self l rng") auto
  with eq obtain new_ship where
    s: "Ship_init start stop True (Bounded (fst (board_size self)))
         (Bounded (snd (board_size self))) = Inr new_ship"
    by (cases "Ship_init start stop True (Bounded (fst (board_size self)))
         (Bounded (snd (board_size self)))") auto
  show ?thesis
  proof (cases "n + 1 > max_iterations")
    case True
    with eq g s have "r = GiveUp" "rng1 = rng'" by simp_all
    with False g s True show ?thesis by (auto intro: give_up)
  next
    case over: False
    with eq g s have "place_ship self ships (Some new_ship) l (n + 1) rng1 = Ok (r, rng')"
      by simp
    with False g s over show ?thesis by (rule retry)
  qed
qed
declare generate_ships.simps [simp del]
section \<open>Legal fleets\<close>

text \<open>
  The legality of a fleet on a board of \<open>width\<close> by \<open>height\<close> cells, in the
  specification's words: every occupied cell lies in \<open>[1, width] \<times> [1, height]\<close>, and
  two different ships of the list are apart: no cell of the one is a cell of the
  other or within one grid-step of it, diagonals included.
\<close>

definition cells_on_board :: "int \<Rightarrow> int \<Rightarrow> ship \<Rightarrow> bool" where
  "cells_on_board width height s =
     (\<forall>c \<in> cells s. 1 \<le> fst c \<and> fst c \<le> width \<and> 1 \<le> snd c \<and> snd c \<le> height)"

definition apart :: "ship \<Rightarrow> ship \<Rightarrow> bool" where
  "apart s t =
     (\<forall>a \<in> cells s. \<forall>b \<in> cells t. \<not> (\<bar>fst a - fst b\<bar> \<le> 1 \<and> \<bar>snd a - snd b\<bar> \<le> 1))"

definition legal_fleet :: "int \<Rightarrow> int \<Rightarrow> ship list \<Rightarrow> bool" where
  "legal_fleet width height fleet =
     ((\<forall>s \<in> set fleet. cells_on_board width height s) \<and>
      (\<forall>i < length fleet. \<forall>j < length fleet. i \<noteq> j \<longrightarrow> apart (fleet ! i) (fleet ! j)))"

text \<open>The number of ships of a fleet that have a given length.\<close>

definition number_of_length :: "int \<Rightarrow> ship list \<Rightarrow> int" where
  "number_of_length l fleet = int (length (filter (\<lambda>s. int (length_ship s) = l) fleet))"

text \<open>
  A factory's request is feasible when some legal fleet of ships built for its board
  has the requested number of ships of each requested length.
\<close>

definition built_for :: "ship_factory \<Rightarrow> ship \<Rightarrow> bool" where
  "built_for self s =
     (\<exists>start stop. Ship_init start stop True (Bounded (fst (board_size self)))
                      (Bounded (snd (board_size self))) = Inr s)"

definition feasible :: "ship_factory \<Rightarrow> bool" where
  "feasible self =
     (\<exists>layout. (\<forall>s \<in> set layout. built_for self s)
        \<and> legal_fleet (fst (board_size self)) (snd (board_size self)) layout
        \<and> (\<forall>(l, n) \<in> set (ships_per_length self). number_of_length l layout = n))"

text \<open>
  Auxiliary notions for the proofs about \<open>generate_ships\<close>: a ship built for the
  factory's board that passes \<open>is_ship_in_bound\<close>; a list in which every ship is
  apart from every later one; the state of the loops (the ships accepted so far,
  with \<open>ship_to_test\<close> one of them or \<open>None\<close>); and the number of ships of a
  length that the items of a request ask for, \<open>range\<close> of a negative count being
  empty.
\<close>

definition on_board_of :: "ship_factory \<Rightarrow> ship \<Rightarrow> bool" where
  "on_board_of self s = (built_for self s \<and> is_ship_in_bound self s)"

text \<open>Every ship of the list is apart from every later one.\<close>

fun each_apart :: "ship list \<Rightarrow> bool" where
  "each_apart [] = True"
| "each_apart (s # rest) = ((\<forall>t \<in> set rest. apart s t) \<and> each_apart rest)"

definition fleet_so_far :: "ship_factory \<Rightarrow> ship list \<Rightarrow> ship option \<Rightarrow> bool" where
  "fleet_so_far self ships st =
     ((\<forall>s \<in> set ships. on_board_of self s) \<and> each_apart ships
      \<and> (\<forall>t. st = Some t \<longrightarrow> t \<in> set ships))"

definition requested :: "int \<Rightarrow> (int \<times> int) list \<Rightarrow> int" where
  "requested l items = sum_list (map (\<lambda>(l', n). if l' = l then int (nat n) else 0) items)"
section \<open>Board (battleship/board.py, absent from the sources)\<close>

text \<open>
  The class \<open>Board\<close> is imported by \<open>player.py\<close> and exercised by
  \<open>tests/test_board.py\<close>, but its file is not among the sources. The players read
  its attributes \<open>width\<close> and \<open>height\<close> only.
\<close>

record board =
  ships :: "ship list"
  width :: int
  height :: int

datatype violation = BoundsViolation | AdjacencyViolation

text \<open>
  Modelled from the spec: the two legality checks of \<open>Board\<close> and its constructor,
  which are missing from the sources. The specification (sections 3, 4.2 and 7) has
  the constructor fail with a bounds violation if any ship cell falls outside the
  grid and with an adjacency/overlap violation if any two ships overlap or are
  mutually near, and otherwise own the ships and the dimensions. The tests name the
  two checks (\<open>are_ships_within_bounds\<close>, \<open>are_ships_too_close\<close>) and expect a
  \<open>ValueError\<close> for the first violation and a \<open>KeyError\<close> for the second. The
  specification does not say which violation is reported for a fleet that has both;
  the model checks the bounds first, the order in which it lists them.
\<close>

definition are_ships_within_bounds :: "ship list \<Rightarrow> int \<Rightarrow> int \<Rightarrow> bool" where
  "are_ships_within_bounds fleet w h = list_all (cells_on_board w h) fleet"

fun are_ships_too_close :: "ship list \<Rightarrow> bool" where
  "are_ships_too_close [] = False"
| "are_ships_too_close (s # rest) = ((\<exists>t \<in> set rest. \<not> apart s t) \<or> are_ships_too_close rest)"

definition Board_init :: "ship list \<Rightarrow> int \<Rightarrow> int \<Rightarrow> violation + board" where
  "Board_init fleet w h =
     (if \<not> are_ships_within_bounds fleet w h then Inl BoundsViolation
      else if are_ships_too_close fleet then Inl AdjacencyViolation
      else Inr \<lparr>ships = fleet, width = w, height = h\<rparr>)"

section \<open>AutomaticPlayer (battleship/player.py)\<close>

text \<open>
  The attributes of an \<open>AutomaticPlayer\<close> that its methods read and write. The
  constructor calls \<open>Board()\<close>, which is not among the sources: the model takes the
  board as an argument.
\<close>

record player =
  board :: board
  tracker :: "cell set"
  sunken_ships :: "ship list"
  successful_hits :: "cell list"
  last_target :: "cell option"

definition AutomaticPlayer_init :: "board \<Rightarrow> player" where
  "AutomaticPlayer_init own_board =
     \<lparr>board = own_board, tracker = {}, sunken_ships = [], successful_hits = [],
      last_target = None\<rparr>"

definition are_there_sunken_ships :: "player \<Rightarrow> bool" where
  "are_there_sunken_ships self = (length (sunken_ships self) > 0)"

text \<open>
  \<open>AutomaticPlayer.get_neighbours\<close>, with the same reading of \<open>right\<close>, \<open>left\<close>,
  \<open>bottom\<close> and \<open>top\<close> as for \<open>Ship.get_neighbours\<close>.
\<close>

definition get_neighbours_player :: "player \<Rightarrow> cell \<Rightarrow> bool \<Rightarrow> cell list" where
  "get_neighbours_player self cell cell_hunt =
     (let x = fst cell; y = snd cell;
          right = (x \<le> width (board self) - 1);
          left = (x \<ge> 2);
          bottom = (y \<le> height (board self) - 1);
          top = (y \<ge> 2)
      in (if right then [(x + 1, y)] else [])
       @ (if left then [(x - 1, y)] else [])
       @ (if bottom then [(x, y + 1)] else [])
       @ (if top then [(x, y - 1)] else [])
       @ (if \<not> cell_hunt then
            (if top \<and> right then [(x + 1, y - 1)] else [])
          @ (if top \<and> left then [(x - 1, y - 1)] else [])
          @ (if bottom \<and> right then [(x + 1, y + 1)] else [])
          @ (if bottom \<and> right then [(x - 1, y + 1)] else [])
          else []))"

definition is_it_within_bounds :: "player \<Rightarrow> cell \<Rightarrow> bool" where
  "is_it_within_bounds self cell =
     (1 \<le> fst cell \<and> fst cell \<le> width (board self) \<and>
      1 \<le> snd cell \<and> snd cell \<le> height (board self))"

definition is_close_to_ship :: "player \<Rightarrow> cell \<Rightarrow> bool" where
  "is_close_to_ship self cell = list_ex (\<lambda>ship. is_near_cell ship cell) (sunken_ships self)"

text \<open>
  \<open>is_there_a_hunt\<close>. \<open>list_of_hits.index(cell)\<close> raises \<open>ValueError\<close> when the cell
  is not in the list, and \<open>pop\<close> removes its first occurrence. A Python set is
  iterated in an order of its own; the model takes the cells of a ship in ascending
  order (the result does not depend on the order, whether it is a list or the
  exception).
\<close>

fun pop_cells :: "cell list \<Rightarrow> cell list \<Rightarrow> error + cell list" where
  "pop_cells [] list_of_hits = Inr list_of_hits"
| "pop_cells (cell # rest) list_of_hits =
     (if cell \<in> set list_of_hits then pop_cells rest (remove1 cell list_of_hits)
      else Inl ValueError)"

fun pop_ships :: "ship list \<Rightarrow> cell list \<Rightarrow> error + cell list" where
  "pop_ships [] list_of_hits = Inr list_of_hits"
| "pop_ships (ship # rest) list_of_hits =
     (case pop_cells (sorted_list_of_set (cells ship)) list_of_hits of
        Inl e \<Rightarrow> Inl e
      | Inr list_of_hits' \<Rightarrow> pop_ships rest list_of_hits')"

definition is_there_a_hunt :: "player \<Rightarrow> error + bool \<times> cell list" where
  "is_there_a_hunt self =
     (case pop_ships (sunken_ships self) (successful_hits self) of
        Inl e \<Rightarrow> Inl e
      | Inr list_of_hits \<Rightarrow> Inr (length list_of_hits > 0, list_of_hits))"

text \<open>
  A \<open>for\<close> loop that appends to a tuple what each round yields, and stops at the
  first exception.
\<close>

fun gather :: "('a \<Rightarrow> error + 'b list) \<Rightarrow> 'a list \<Rightarrow> error + 'b list" where
  "gather f [] = Inr []"
| "gather f (x # xs) =
     (case f x of
        Inl e \<Rightarrow> Inl e
      | Inr found \<Rightarrow>
          (case gather f xs of
             Inl e \<Rightarrow> Inl e
           | Inr further \<Rightarrow> Inr (found @ further)))"

text \<open>
  \<open>get_all_cells\<close> calls itself with no bound of its own; the interpreter raises
  \<open>RecursionError\<close> when the calls are nested too deep. The first argument is the
  number of nested calls that the interpreter still allows.
\<close>

fun get_all_cells :: "nat \<Rightarrow> player \<Rightarrow> cell \<Rightarrow> cell \<Rightarrow> error + cell list" where
  "get_all_cells 0 self cell except_cell = Inl RecursionError"
| "get_all_cells (Suc depth) self cell except_cell =
     gather (\<lambda>neighbour.
               if neighbour \<in> set (successful_hits self) \<and> neighbour \<noteq> except_cell then
                 (case get_all_cells depth self neighbour cell of
                    Inl e \<Rightarrow> Inl e
                  | Inr new_neighbours \<Rightarrow> Inr (neighbour # new_neighbours))
               else Inr [])
            (get_neighbours_player self cell False)"

text \<open>\<open>cells[0][0] == cells[1][0]\<close>; a tuple of fewer than two cells has no \<open>cells[1]\<close>.\<close>

definition is_this_ship_vertical :: "cell list \<Rightarrow> error + bool" where
  "is_this_ship_vertical cells_found =
     (case cells_found of
        first # second # rest \<Rightarrow> Inr (fst first = fst second)
      | _ \<Rightarrow> Inl IndexError)"

text \<open>
  The two loops of \<open>find_start_and_end\<close>, on the variables \<open>(min_y, start, max_y,
  end)\<close> and \<open>(min_x, start, max_x, end)\<close>; \<open>start\<close> and \<open>end\<close> are \<open>None\<close> until
  assigned.
\<close>

fun scan_vertical ::
  "cell list \<Rightarrow> int \<times> cell option \<times> int \<times> cell option \<Rightarrow> int \<times> cell option \<times> int \<times> cell option" where
  "scan_vertical [] vars = vars"
| "scan_vertical (cell # rest) (min_y, start, max_y, end) =
     (let (min_y', start') = (if min_y > snd cell then (snd cell, Some cell) else (min_y, start));
          (max_y', end') = (if max_y < snd cell then (snd cell, Some cell) else (max_y, end))
      in scan_vertical rest (min_y', start', max_y', end'))"

fun scan_horizontal ::
  "cell list \<Rightarrow> int \<times> cell option \<times> int \<times> cell option \<Rightarrow> int \<times> cell option \<times> int \<times> cell option" where
  "scan_horizontal [] vars = vars"
| "scan_horizontal (cell # rest) (min_x, start, max_x, end) =
     (let (min_x', start') = (if min_x > fst cell then (fst cell, Some cell) else (min_x, start));
          (max_x', end') = (if max_x < fst cell then (fst cell, Some cell) else (max_x, end))
      in scan_horizontal rest (min_x', start', max_x', end'))"

definition find_start_and_end ::
  "nat \<Rightarrow> player \<Rightarrow> cell \<Rightarrow> error + cell option \<times> cell option" where
  "find_start_and_end depth self cell =
     (case get_all_cells depth self cell cell of
        Inl e \<Rightarrow> Inl e
      | Inr nearby \<Rightarrow>
          (let cells_found = nearby @ [cell] in
           if length cells_found = 1 then Inr (Some cell, Some cell)
           else
             (case is_this_ship_vertical cells_found of
                Inl e \<Rightarrow> Inl e
              | Inr vertical \<Rightarrow>
                  if vertical then
                    (case scan_vertical cells_found
                            (height (board self) + 1, None, 0, None) of
                       (min_y, start, max_y, end) \<Rightarrow> Inr (start, end))
                  else
                    (case scan_horizontal cells_found
                            (width (board self) + 1, None, 0, None) of
                       (min_x, start, max_x, end) \<Rightarrow> Inr (start, end)))))"

text \<open>
  \<open>random.choice\<close> raises \<open>IndexError\<close> on an empty sequence and otherwise returns
  the element that the draw selects.
\<close>

definition choice :: "'a list \<Rightarrow> int list \<Rightarrow> ('a \<times> int list) outcome" where
  "choice xs rng =
     (if xs = [] then Raised IndexError
      else (case rng of
              [] \<Rightarrow> Starved
            | r # rest \<Rightarrow> Ok (xs ! nat (r mod int (length xs)), rest)))"

text \<open>
  \<open>get_better_target\<close>. Subscripting \<open>None\<close> raises \<open>TypeError\<close>, and so does
  \<open>list_of_hits[0]\<close> raise \<open>IndexError\<close> on an empty list.
\<close>

definition get_better_target ::
  "nat \<Rightarrow> player \<Rightarrow> cell list \<Rightarrow> int list \<Rightarrow> (cell \<times> int list) outcome" where
  "get_better_target depth self list_of_hits rng =
     (case list_of_hits of
        [] \<Rightarrow> Raised IndexError
      | cell # others \<Rightarrow>
          (case find_start_and_end depth self cell of
             Inl e \<Rightarrow> Raised e
           | Inr (None, end) \<Rightarrow> Raised TypeError
           | Inr (Some start, None) \<Rightarrow> Raised TypeError
           | Inr (Some start, Some end) \<Rightarrow>
               if fst start = fst end
               then choice [(fst start, snd start - 1), (fst end, snd end + 1)] rng
               else choice [(fst start - 1, snd start), (fst end + 1, snd end)] rng))"

text \<open>\<open>hunting_cell\<close>; its \<open>print\<close> is left out.\<close>

definition hunting_cell ::
  "nat \<Rightarrow> player \<Rightarrow> cell \<Rightarrow> cell list \<Rightarrow> int list \<Rightarrow> ((bool \<times> cell) \<times> int list) outcome" where
  "hunting_cell depth self cell list_of_hits rng =
     (if length list_of_hits > 1 then
        (case get_better_target depth self list_of_hits rng of
           Raised e \<Rightarrow> Raised e
         | Starved \<Rightarrow> Starved
         | Ok (new_target, rng') \<Rightarrow> Ok ((True, new_target), rng'))
      else
        (case list_of_hits of
           [] \<Rightarrow> Raised IndexError
         | hit # others \<Rightarrow>
             if cell \<in> set (get_neighbours_player self hit True) then Ok ((True, cell), rng)
             else Ok ((False, cell), rng)))"

definition get_random_coordinates :: "player \<Rightarrow> int list \<Rightarrow> (cell \<times> int list) outcome" where
  "get_random_coordinates self rng =
     (case randint 1 (width (board self)) rng of
        Raised e \<Rightarrow> Raised e
      | Starved \<Rightarrow> Starved
      | Ok (x, rng1) \<Rightarrow>
          (case randint 1 (height (board self)) rng1 of
             Raised e \<Rightarrow> Raised e
           | Starved \<Rightarrow> Starved
           | Ok (y, rng2) \<Rightarrow> Ok ((x, y), rng2)))"

text \<open>
  The \<open>while\<close> loop of \<open>generate_random_target\<close>. Its test holds on entry
  (\<open>has_been_attacked\<close> starts as \<open>True\<close>), so the loop is its body followed by the
  test. \<open>sunken\<close>, \<open>there_is_a_hunt\<close> and \<open>list_of_hits\<close> are computed before the
  loop. Every round draws, which makes the recursion well-founded on the draws.
\<close>

lemma get_random_coordinates_shorter:
  "get_random_coordinates self rng = Ok (c, rng') \<Longrightarrow> length rng = length rng' + 2"
  unfolding get_random_coordinates_def
  by (auto split: outcome.splits dest!: randint_shorter)

lemma choice_shorter:
  "choice xs rng = Ok (x, rng') \<Longrightarrow> length rng = Suc (length rng')"
  by (auto simp: choice_def split: if_splits list.splits)

lemma get_better_target_shorter:
  "get_better_target depth self list_of_hits rng = Ok (c, rng') \<Longrightarrow> length rng = Suc (length rng')"
  unfolding get_better_target_def
  by (auto split: list.splits sum.splits option.splits if_splits dest: choice_shorter)

lemma hunting_cell_shorter:
  "hunting_cell depth self cell list_of_hits rng = Ok (r, rng') \<Longrightarrow> length rng' \<le> length rng"
  unfolding hunting_cell_def
  by (auto split: if_splits outcome.splits list.splits dest: get_better_target_shorter)

function target_loop ::
  "nat \<Rightarrow> player \<Rightarrow> bool \<Rightarrow> bool \<Rightarrow> cell list \<Rightarrow> int list \<Rightarrow> (cell \<times> int list) outcome" where
  "target_loop depth self sunken there_is_a_hunt list_of_hits rng =
     (case get_random_coordinates self rng of
        Raised e \<Rightarrow> Raised e
      | Starved \<Rightarrow> Starved
      | Ok (random_cell, rng1) \<Rightarrow>
          (case (if there_is_a_hunt
                 then hunting_cell depth self random_cell list_of_hits rng1
                 else Ok ((True, random_cell), rng1)) of
             Raised e \<Rightarrow> Raised e
           | Starved \<Rightarrow> Starved
           | Ok ((is_a_hunting_cell, random_cell'), rng2) \<Rightarrow>
               (let has_been_attacked = (random_cell' \<in> tracker self);
                    within_bounds = is_it_within_bounds self random_cell';
                    close = (if sunken then is_close_to_ship self random_cell' else False)
                in if has_been_attacked \<or> close \<or> \<not> is_a_hunting_cell \<or> \<not> within_bounds
                   then target_loop depth self sunken there_is_a_hunt list_of_hits rng2
                   else Ok (random_cell', rng2))))"
  by pat_completeness auto
termination
proof (relation "measure (\<lambda>(depth, self, sunken, there_is_a_hunt, list_of_hits, rng). length rng)")
  show "wf (measure (\<lambda>(depth, self, sunken, there_is_a_hunt, list_of_hits, rng). length rng))"
    by simp
next
  fix depth :: nat and self :: player and sunken there_is_a_hunt :: bool
    and list_of_hits :: "cell list" and rng :: "int list"
    and x1 random_cell rng1 x1a x y is_a_hunting_cell random_cell' rng2
  assume g: "get_random_coordinates self rng = Ok x1" "(random_cell, rng1) = x1"
    and h: "(if there_is_a_hunt then hunting_cell depth self random_cell list_of_hits rng1
             else Ok ((True, random_cell), rng1)) = Ok x1a"
      "(x, rng2) = x1a"
  from g have "length rng = length rng1 + 2"
    using get_random_coordinates_shorter [of self rng random_cell rng1] by simp
  moreover from h have "length rng2 \<le> length rng1"
    using hunting_cell_shorter [of depth self random_cell list_of_hits rng1 x rng2]
    by (auto split: if_splits)
  ultimately
  show "((depth, self, sunken, there_is_a_hunt, list_of_hits, rng2),
         (depth, self, sunken, there_is_a_hunt, list_of_hits, rng))
        \<in> measure (\<lambda>(depth, self, sunken, there_is_a_hunt, list_of_hits, rng). length rng)"
    by simp
qed

declare target_loop.simps [simp del]

text \<open>
  \<open>generate_random_target\<close> and \<open>select_target\<close> return the cell and the player as
  it has become (\<open>last_target\<close> and \<open>tracker\<close> updated).
\<close>

definition generate_random_target ::
  "nat \<Rightarrow> player \<Rightarrow> int list \<Rightarrow> ((cell \<times> player) \<times> int list) outcome" where
  "generate_random_target depth self rng =
     (let sunken = are_there_sunken_ships self in
      case is_there_a_hunt self of
        Inl e \<Rightarrow> Raised e
      | Inr (there_is_a_hunt, list_of_hits) \<Rightarrow>
          (case target_loop depth self sunken there_is_a_hunt list_of_hits rng of
             Raised e \<Rightarrow> Raised e
           | Starved \<Rightarrow> Starved
           | Ok (random_cell, rng') \<Rightarrow>
               Ok ((random_cell, self\<lparr>last_target := Some random_cell\<rparr>), rng')))"

definition select_target ::
  "nat \<Rightarrow> player \<Rightarrow> int list \<Rightarrow> ((cell \<times> player) \<times> int list) outcome" where
  "select_target depth self rng =
     (case generate_random_target depth self rng of
        Raised e \<Rightarrow> Raised e
      | Starved \<Rightarrow> Starved
      | Ok ((target_cell, self'), rng') \<Rightarrow>
          Ok ((target_cell, self'\<lparr>tracker := insert target_cell (tracker self')\<rparr>), rng'))"

text \<open>
  \<open>receive_result\<close>. The sunk ship is built by \<open>Ship(start, end,
  should_validate=True)\<close>, with the default limits; unpacking \<open>None\<close> there raises
  \<open>TypeError\<close>. The list of hits holds cells: where \<open>last_target\<close> is still \<open>None\<close>
  (no target was selected before the result came), Python records the \<open>None\<close> and
  raises \<open>TypeError\<close> when it next subscripts it; the model raises it at once.
\<close>

definition receive_result :: "nat \<Rightarrow> player \<Rightarrow> bool \<Rightarrow> bool \<Rightarrow> error + player" where
  "receive_result depth self is_ship_hit has_ship_sunk =
     (if is_ship_hit then
        (case last_target self of
           None \<Rightarrow> Inl TypeError
         | Some target \<Rightarrow>
             (let self' = self\<lparr>successful_hits := successful_hits self @ [target]\<rparr> in
              if has_ship_sunk then
                (case find_start_and_end depth self' target of
                   Inl e \<Rightarrow> Inl e
                 | Inr (None, end) \<Rightarrow> Inl TypeError
                 | Inr (Some start, None) \<Rightarrow> Inl TypeError
                 | Inr (Some start, Some end) \<Rightarrow>
                     (case Ship_init start end True Unbounded Unbounded of
                        Inl e \<Rightarrow> Inl e
                      | Inr ship \<Rightarrow> Inr (self'\<lparr>sunken_ships := sunken_ships self' @ [ship]\<rparr>)))
              else Inr self'))
      else Inr self)"

text \<open>
  One turn of the game on the attacker's side: a target is selected, and the result
  of the attack is received. \<open>turns\<close> is any number of turns.
\<close>

inductive turn :: "player \<Rightarrow> player \<Rightarrow> bool" where
  "select_target depth self rng = Ok ((target, aimed), rng')
    \<Longrightarrow> receive_result depth' aimed is_ship_hit has_ship_sunk = Inr informed
    \<Longrightarrow> turn self informed"

definition turns :: "player \<Rightarrow> player \<Rightarrow> bool" where
  "turns = turn\<^sup>*\<^sup>*"

text \<open>
  The open hits in the specification's words: the recorded successful hits that
  belong to no recorded sunken ship.
\<close>

definition open_hits :: "player \<Rightarrow> cell list" where
  "open_hits self =
     filter (\<lambda>cell. \<forall>ship \<in> set (sunken_ships self). cell \<notin> cells ship) (successful_hits self)"

text \<open>
  Auxiliary notions for the proofs about the memory: a sunken ship as
  \<open>receive_result\<close> records it (built with the default limits, from two attacked cells
  of the board), and a memory whose hits and last target are attacked cells of the
  board and whose sunken ships were so recorded.
\<close>

definition recorded :: "player \<Rightarrow> ship \<Rightarrow> bool" where
  "recorded self ship =
     (\<exists>start stop. Ship_init start stop True Unbounded Unbounded = Inr ship
        \<and> start \<in> tracker self \<and> stop \<in> tracker self
        \<and> is_it_within_bounds self start \<and> is_it_within_bounds self stop)"

definition sound_memory :: "player \<Rightarrow> bool" where
  "sound_memory self =
     ((\<forall>c \<in> set (successful_hits self). is_it_within_bounds self c \<and> c \<in> tracker self)
      \<and> (\<forall>c. last_target self = Some c \<longrightarrow> is_it_within_bounds self c \<and> c \<in> tracker self)
      \<and> (\<forall>ship \<in> set (sunken_ships self). recorded self ship))"

text \<open>
  A run of recorded hits: all the cells of column \<open>x\<close> from row \<open>lo\<close> to row \<open>hi\<close>
  (or of row \<open>y\<close> from column \<open>lo\<close> to column \<open>hi\<close>) are recorded hits, they lie on
  the board, and no recorded hit outside the run is adjacent to a cell of the run.
\<close>

definition vertical_run :: "player \<Rightarrow> int \<Rightarrow> int \<Rightarrow> int \<Rightarrow> bool" where
  "vertical_run self x lo hi =
     ({x} \<times> {lo..hi} \<subseteq> set (successful_hits self)
      \<and> (\<forall>c \<in> set (successful_hits self). c \<notin> {x} \<times> {lo..hi} \<longrightarrow>
            (\<forall>d \<in> {x} \<times> {lo..hi}. \<not> adjacent c d))
      \<and> 1 \<le> x \<and> x \<le> width (board self) \<and> 1 \<le> lo \<and> hi \<le> height (board self))"

definition horizontal_run :: "player \<Rightarrow> int \<Rightarrow> int \<Rightarrow> int \<Rightarrow> bool" where
  "horizontal_run self y lo hi =
     ({lo..hi} \<times> {y} \<subseteq> set (successful_hits self)
      \<and> (\<forall>c \<in> set (successful_hits self). c \<notin> {lo..hi} \<times> {y} \<longrightarrow>
            (\<forall>d \<in> {lo..hi} \<times> {y}. \<not> adjacent c d))
      \<and> 1 \<le> y \<and> y \<le> height (board self) \<and> 1 \<le> lo \<and> hi \<le> width (board self))"

text \<open>
  A memory whose open hits form one run: no hit is recorded twice, the open hits
  are the cells of one segment of a column or of a row (or there is none), and no
  other recorded hit is adjacent to an open hit.
\<close>

definition one_open_run :: "player \<Rightarrow> bool" where
  "one_open_run self =
     (distinct (successful_hits self)
      \<and> (set (open_hits self) = {}
         \<or> (\<exists>x lo hi. lo \<le> hi \<and> set (open_hits self) = {x} \<times> {lo..hi})
         \<or> (\<exists>y lo hi. lo \<le> hi \<and> set (open_hits self) = {lo..hi} \<times> {y}))
      \<and> (\<forall>c \<in> set (successful_hits self). c \<notin> set (open_hits self) \<longrightarrow>
            (\<forall>d \<in> set (open_hits self). \<not> adjacent c d)))"
section \<open>Properties of Ship\<close>

subsection \<open>Construction\<close>

lemma get_cells_straight:
  "get_cells s = Inr cs \<Longrightarrow> is_horizontal s \<or> is_vertical s"
  by (simp add: get_cells_def split: if_splits)

lemma get_cells_crooked:
  "\<not> is_horizontal s \<Longrightarrow> \<not> is_vertical s \<Longrightarrow> get_cells s = Inl ValueError"
  by (simp add: get_cells_def)

lemma run_image:
  fixes p q b :: int
  shows "(\<exists>k \<in> {0..q - p + 1 - 1}. b = p + k) \<longleftrightarrow> p \<le> b \<and> b \<le> q"
  unfolding Bex_def atLeastAtMost_iff by presburger

lemma get_cells_rectangle:
  assumes "get_cells s = Inr cs"
  shows "cs = {x_start s..x_end s} \<times> {y_start s..y_end s}"
proof (rule set_eqI)
  fix c :: cell
  obtain a b where c: "c = (a, b)" by (cases c)
  consider (point) "is_vertical s" "is_horizontal s"
    | (hor) "\<not> is_vertical s" "is_horizontal s"
    | (ver) "is_vertical s" "\<not> is_horizontal s"
    using get_cells_straight [OF assms] by blast
  then show "c \<in> cs \<longleftrightarrow> c \<in> {x_start s..x_end s} \<times> {y_start s..y_end s}"
  proof cases
    case point
    then have "cs = {(x_start s, y_start s)}" using assms by (simp add: get_cells_def)
    with point show ?thesis
      unfolding c is_vertical_def is_horizontal_def by auto
  next
    case hor
    then have "cs = (\<lambda>k. (x_start s + k, y_start s)) ` {0..x_end s - x_start s + 1 - 1}"
      using assms by (simp add: get_cells_def)
    then have "c \<in> cs \<longleftrightarrow> (\<exists>k \<in> {0..x_end s - x_start s + 1 - 1}. a = x_start s + k) \<and> b = y_start s"
      unfolding c by (auto simp: image_iff)
    with hor(2) show ?thesis
      unfolding run_image c is_horizontal_def by auto
  next
    case ver
    then have "cs = (\<lambda>k. (x_start s, y_start s + k)) ` {0..y_end s - y_start s + 1 - 1}"
      using assms by (simp add: get_cells_def)
    then have "c \<in> cs \<longleftrightarrow> a = x_start s \<and> (\<exists>k \<in> {0..y_end s - y_start s + 1 - 1}. b = y_start s + k)"
      unfolding c by (auto simp: image_iff)
    with ver(1) show ?thesis
      unfolding run_image c is_vertical_def by auto
  qed
qed

lemma get_cells_coordinates:
  "x_start s = x_start t \<Longrightarrow> x_end s = x_end t \<Longrightarrow> y_start s = y_start t \<Longrightarrow> y_end s = y_end t
   \<Longrightarrow> get_cells s = get_cells t"
  by (simp add: get_cells_def is_vertical_def is_horizontal_def)

lemma Ship_init_Inr:
  assumes "Ship_init start end v bw bh = Inr s"
  shows "x_start s = min (fst start) (fst end) \<and> x_end s = max (fst start) (fst end)
    \<and> y_start s = min (snd start) (snd end) \<and> y_end s = max (snd start) (snd end)
    \<and> damaged_cells s = {} \<and> board_width s = bw \<and> board_height s = bh
    \<and> get_cells s = Inr (cells s)"
proof -
  define self where "self = \<lparr>x_start = min (fst start) (fst end), y_start = min (snd start) (snd end),
                  x_end = max (fst start) (fst end), y_end = max (snd start) (snd end),
                  cells = {}, damaged_cells = {}, board_width = bw, board_height = bh\<rparr>"
  from assms have "(case get_cells self of Inl e \<Rightarrow> Inl e | Inr cs \<Rightarrow> Inr (self\<lparr>cells := cs\<rparr>)) = Inr s"
    unfolding Ship_init_def Let_def self_def [symmetric] by (simp split: if_splits)
  then obtain cs where cs: "get_cells self = Inr cs" and s: "s = self\<lparr>cells := cs\<rparr>"
    by (cases "get_cells self") auto
  have "get_cells s = get_cells self"
    by (rule get_cells_coordinates) (simp_all add: s)
  with cs show ?thesis
    by (simp add: s self_def)
qed

lemma Ship_init_cells:
  assumes "Ship_init start end v bw bh = Inr s"
  shows "cells s = {x_start s..x_end s} \<times> {y_start s..y_end s}"
  using Ship_init_Inr [OF assms] get_cells_rectangle by blast

lemma Ship_init_straight:
  assumes "Ship_init start end v bw bh = Inr s"
  shows "is_horizontal s \<or> is_vertical s"
  using Ship_init_Inr [OF assms] get_cells_straight by blast

lemma Ship_init_crooked:
  assumes "fst start \<noteq> fst end" "snd start \<noteq> snd end"
  shows "Ship_init start end v bw bh = Inl ValueError"
proof -
  define self where "self = \<lparr>x_start = min (fst start) (fst end), y_start = min (snd start) (snd end),
                  x_end = max (fst start) (fst end), y_end = max (snd start) (snd end),
                  cells = {}, damaged_cells = {}, board_width = bw, board_height = bh\<rparr>"
  have "\<not> is_horizontal self" "\<not> is_vertical self"
    using assms by (simp_all add: self_def is_horizontal_def is_vertical_def min_def max_def)
  then have "get_cells self = Inl ValueError"
    by (rule get_cells_crooked)
  then show ?thesis
    unfolding Ship_init_def Let_def self_def [symmetric] by simp
qed

lemma Ship_init_aligned:
  assumes "fst start = fst end \<or> snd start = snd end"
  shows "\<exists>s. Ship_init start end v bw bh = Inr s"
proof -
  define self where "self = \<lparr>x_start = min (fst start) (fst end), y_start = min (snd start) (snd end),
                  x_end = max (fst start) (fst end), y_end = max (snd start) (snd end),
                  cells = {}, damaged_cells = {}, board_width = bw, board_height = bh\<rparr>"
  have "is_horizontal self \<or> is_vertical self"
    using assms by (auto simp: self_def is_horizontal_def is_vertical_def)
  then have "\<exists>cs. get_cells self = Inr cs"
    by (cases "is_vertical self"; cases "is_horizontal self") (simp_all add: get_cells_def)
  then obtain cs where "get_cells self = Inr cs" ..
  then show ?thesis
    unfolding Ship_init_def Let_def self_def [symmetric]
    using \<open>is_horizontal self \<or> is_vertical self\<close> by auto
qed

text \<open>
  Claim C8. With \<open>should_validate=True\<close> the constructor raises \<open>ValueError\<close>
  exactly when the two endpoint cells share neither the column nor the row; it returns
  a ship exactly when they share one of them; and a single-cell ship (equal endpoints)
  is accepted, is both horizontal and vertical, and occupies that one cell.
\<close>

theorem Ship_init_validation:
  "(Ship_init start stop True bw bh = Inl ValueError
      \<longleftrightarrow> fst start \<noteq> fst stop \<and> snd start \<noteq> snd stop)
   \<and> ((\<exists>s. Ship_init start stop True bw bh = Inr s)
      \<longleftrightarrow> fst start = fst stop \<or> snd start = snd stop)
   \<and> (\<exists>s. Ship_init cell cell True bw bh = Inr s \<and> is_horizontal s \<and> is_vertical s
          \<and> cells s = {cell})"
proof -
  have crooked: "Ship_init start stop True bw bh = Inl ValueError"
    if "fst start \<noteq> fst stop" "snd start \<noteq> snd stop"
    using that by (rule Ship_init_crooked)
  have aligned: "\<exists>s. Ship_init start stop True bw bh = Inr s"
    if "fst start = fst stop \<or> snd start = snd stop"
    using that by (rule Ship_init_aligned)
  have one: "Ship_init start stop True bw bh = Inl ValueError
      \<longleftrightarrow> fst start \<noteq> fst stop \<and> snd start \<noteq> snd stop"
    using crooked aligned by fastforce
  have two: "(\<exists>s. Ship_init start stop True bw bh = Inr s)
      \<longleftrightarrow> fst start = fst stop \<or> snd start = snd stop"
    using crooked aligned by fastforce
  obtain s where s: "Ship_init cell cell True bw bh = Inr s"
    using Ship_init_aligned [of cell cell True bw bh] by auto
  have "cells s = {cell}"
    using Ship_init_cells [OF s] Ship_init_Inr [OF s] by (cases cell) auto
  moreover have "is_horizontal s" "is_vertical s"
    using Ship_init_Inr [OF s] by (simp_all add: is_horizontal_def is_vertical_def)
  ultimately have "\<exists>s. Ship_init cell cell True bw bh = Inr s \<and> is_horizontal s \<and> is_vertical s
          \<and> cells s = {cell}"
    using s by blast
  with one two show ?thesis by blast
qed

theorem Ship_init_validation_witness:
  "Ship_init (1, 1) (2, 2) True Unbounded Unbounded = Inl ValueError
   \<and> Ship_init (4, 5) (2, 5) True Unbounded Unbounded \<noteq> Inl ValueError
   \<and> (\<exists>s. Ship_init (4, 5) (4, 5) True Unbounded Unbounded = Inr s \<and> cells s = {(4, 5)})"
  using Ship_init_validation [where start = "(1, 1)" and stop = "(2, 2)" and bw = Unbounded
      and bh = Unbounded and cell = "(4, 5)"]
    Ship_init_validation [where start = "(4, 5)" and stop = "(2, 5)" and bw = Unbounded
      and bh = Unbounded and cell = "(4, 5)"]
  by auto

text \<open>
  Claim C10. Endpoint cells that share neither the column nor the row make the
  constructor raise \<open>ValueError\<close> also with \<open>should_validate=False\<close>, because
  \<open>get_cells\<close> raises; so whatever the flag, a ship that has been constructed has
  endpoints on one row or one column and is horizontal or vertical.
\<close>

theorem Ship_init_never_crooked:
  "(fst start \<noteq> fst stop \<and> snd start \<noteq> snd stop
      \<longrightarrow> Ship_init start stop False bw bh = Inl ValueError)
   \<and> (\<forall>s. Ship_init start stop should_validate bw bh = Inr s
      \<longrightarrow> (fst start = fst stop \<or> snd start = snd stop) \<and> (is_horizontal s \<or> is_vertical s))"
proof (intro conjI impI allI)
  assume "fst start \<noteq> fst stop \<and> snd start \<noteq> snd stop"
  then show "Ship_init start stop False bw bh = Inl ValueError"
    by (simp add: Ship_init_crooked)
next
  fix s
  assume s: "Ship_init start stop should_validate bw bh = Inr s"
  show "fst start = fst stop \<or> snd start = snd stop"
  proof (rule ccontr)
    assume "\<not> (fst start = fst stop \<or> snd start = snd stop)"
    then have "Ship_init start stop should_validate bw bh = Inl ValueError"
      by (simp add: Ship_init_crooked)
    with s show False by simp
  qed
  show "is_horizontal s \<or> is_vertical s"
    using s by (rule Ship_init_straight)
qed

theorem Ship_init_never_crooked_witness:
  "Ship_init (1, 1) (2, 2) False Unbounded Unbounded = Inl ValueError
   \<and> Ship_init (4, 5) (2, 5) False Unbounded Unbounded =
       Inr \<lparr>x_start = 2, y_start = 5, x_end = 4, y_end = 5,
            cells = {(2, 5), (3, 5), (4, 5)}, damaged_cells = {},
            board_width = Unbounded, board_height = Unbounded\<rparr>
   \<and> is_horizontal \<lparr>x_start = 2, y_start = 5, x_end = 4, y_end = 5,
            cells = {(2, 5), (3, 5), (4, 5)}, damaged_cells = {},
            board_width = Unbounded, board_height = Unbounded\<rparr>"
proof -
  have a: "Ship_init (4, 5) (2, 5) False Unbounded Unbounded =
       Inr \<lparr>x_start = 2, y_start = 5, x_end = 4, y_end = 5,
            cells = {(2, 5), (3, 5), (4, 5)}, damaged_cells = {},
            board_width = Unbounded, board_height = Unbounded\<rparr>"
    by code_simp
  have b: "\<not> is_vertical \<lparr>x_start = 2, y_start = 5, x_end = 4, y_end = 5,
            cells = {(2, 5), (3, 5), (4, 5)}, damaged_cells = {},
            board_width = Unbounded, board_height = Unbounded\<rparr>"
    by (simp add: is_vertical_def)
  show ?thesis
    using Ship_init_never_crooked [where start = "(1, 1)" and stop = "(2, 2)" and bw = Unbounded
        and bh = Unbounded]
      Ship_init_never_crooked [where start = "(4, 5)" and stop = "(2, 5)" and bw = Unbounded
        and bh = Unbounded and should_validate = False] a b
    by simp
qed

subsection \<open>Damage\<close>

lemma receive_damages_fields:
  "damaged_cells (receive_damages s cs) = damaged_cells s \<union> (cells s \<inter> set cs)
   \<and> cells (receive_damages s cs) = cells s"
  by (induction cs arbitrary: s) (auto simp: receive_damage_def is_occupying_cell_def)

text \<open>
  Claim C2. For a validated ship and any sequence \<open>attacks\<close> of \<open>receive_damage\<close>
  calls: the damaged cells are the occupied cells that were attacked, so they and
  \<open>has_sunk\<close> depend only on the set of attacked cells (not on order or repetition);
  \<open>has_sunk\<close> holds iff every occupied cell was attacked; attacking a damaged cell
  again returns \<open>True\<close> and keeps the count of damaged cells; attacking a cell that
  the ship does not occupy returns \<open>False\<close> and leaves the ship as it was.
\<close>

theorem damage_depends_on_attacked_set:
  assumes "Ship_init start stop True bw bh = Inr s"
  shows "damaged_cells (receive_damages s attacks) = cells s \<inter> set attacks
    \<and> (has_sunk (receive_damages s attacks) \<longleftrightarrow> cells s \<subseteq> set attacks)
    \<and> (set attacks = set attacks' \<longrightarrow>
          damaged_cells (receive_damages s attacks) = damaged_cells (receive_damages s attacks')
          \<and> has_sunk (receive_damages s attacks) = has_sunk (receive_damages s attacks'))
    \<and> (cell \<in> damaged_cells (receive_damages s attacks) \<longrightarrow>
          fst (receive_damage (receive_damages s attacks) cell)
          \<and> count_damaged_cells (snd (receive_damage (receive_damages s attacks) cell))
              = count_damaged_cells (receive_damages s attacks))
    \<and> (cell \<notin> cells s \<longrightarrow>
          receive_damage (receive_damages s attacks) cell = (False, receive_damages s attacks))"
proof -
  have e: "damaged_cells s = {}"
    using Ship_init_Inr [OF assms] by simp
  have d: "damaged_cells (receive_damages s as) = cells s \<inter> set as" for as
    using receive_damages_fields [of s as] e by simp
  have c: "cells (receive_damages s as) = cells s" for as
    using receive_damages_fields [of s as] by simp
  have "insert cell (damaged_cells (receive_damages s attacks)) = damaged_cells (receive_damages s attacks)"
    if "cell \<in> damaged_cells (receive_damages s attacks)"
    using that by blast
  then show ?thesis
    unfolding has_sunk_def receive_damage_def is_occupying_cell_def count_damaged_cells_def d c
    by auto
qed


theorem damage_depends_on_attacked_set_witness:
  "Ship_init (4, 5) (2, 5) True Unbounded Unbounded =
       Inr \<lparr>x_start = 2, y_start = 5, x_end = 4, y_end = 5,
            cells = {(2, 5), (3, 5), (4, 5)}, damaged_cells = {},
            board_width = Unbounded, board_height = Unbounded\<rparr>
   \<and> damaged_cells (receive_damages \<lparr>x_start = 2, y_start = 5, x_end = 4, y_end = 5,
            cells = {(2, 5), (3, 5), (4, 5)}, damaged_cells = {},
            board_width = Unbounded, board_height = Unbounded\<rparr> [(3, 5), (7, 5), (3, 5)]) = {(3, 5)}
   \<and> \<not> has_sunk (receive_damages \<lparr>x_start = 2, y_start = 5, x_end = 4, y_end = 5,
            cells = {(2, 5), (3, 5), (4, 5)}, damaged_cells = {},
            board_width = Unbounded, board_height = Unbounded\<rparr> [(3, 5), (7, 5), (3, 5)])
   \<and> has_sunk (receive_damages \<lparr>x_start = 2, y_start = 5, x_end = 4, y_end = 5,
            cells = {(2, 5), (3, 5), (4, 5)}, damaged_cells = {},
            board_width = Unbounded, board_height = Unbounded\<rparr> [(3, 5), (4, 5), (3, 5), (2, 5)])"
proof -
  have a: "Ship_init (4, 5) (2, 5) True Unbounded Unbounded =
       Inr \<lparr>x_start = 2, y_start = 5, x_end = 4, y_end = 5,
            cells = {(2, 5), (3, 5), (4, 5)}, damaged_cells = {},
            board_width = Unbounded, board_height = Unbounded\<rparr>"
    by code_simp
  show ?thesis
    using a damage_depends_on_attacked_set [OF a, where attacks = "[(3, 5), (7, 5), (3, 5)]"]
      damage_depends_on_attacked_set [OF a, where attacks = "[(3, 5), (4, 5), (3, 5), (2, 5)]"]
    by simp
qed


subsection \<open>Nearness\<close>

lemma mem_optional: "c \<in> set (if b then [x] else []) \<longleftrightarrow> b \<and> c = x"
  by (cases b) simp_all

lemma mem_get_neighbours:
  "(a, b) \<in> set (get_neighbours s (x, y)) \<longleftrightarrow>
     (within x (board_width s) \<and> a = x + 1 \<and> b = y)
   \<or> (x \<ge> 2 \<and> a = x - 1 \<and> b = y)
   \<or> (within y (board_height s) \<and> a = x \<and> b = y + 1)
   \<or> (y \<ge> 2 \<and> a = x \<and> b = y - 1)
   \<or> ((y \<ge> 2 \<and> within x (board_width s)) \<and> a = x + 1 \<and> b = y - 1)
   \<or> ((y \<ge> 2 \<and> x \<ge> 2) \<and> a = x - 1 \<and> b = y - 1)
   \<or> ((within y (board_height s) \<and> within x (board_width s)) \<and> a = x + 1 \<and> b = y + 1)
   \<or> ((within y (board_height s) \<and> within x (board_width s)) \<and> a = x - 1 \<and> b = y + 1)"
  unfolding get_neighbours_def Let_def set_append Un_iff mem_optional fst_conv snd_conv prod.inject
  by (simp only: disj_assoc)

lemma abs_diff_le_1: "\<bar>x - a\<bar> \<le> 1 \<longleftrightarrow> (a = x + 1 \<or> a = x \<or> a = x - 1)" for x a :: int
  by arith

lemma adjacent_iff:
  "adjacent (x, y) (a, b) \<longleftrightarrow>
     \<not> (x = a \<and> y = b) \<and> (a = x + 1 \<or> a = x \<or> a = x - 1) \<and> (b = y + 1 \<or> b = y \<or> b = y - 1)"
  unfolding adjacent_def fst_conv snd_conv prod.inject abs_diff_le_1 ..

lemma eight_neighbours:
  fixes a b x y :: int
  assumes p: "1 \<le> a" "1 \<le> b" "1 \<le> x" "1 \<le> y"
  shows "(a = x + 1 \<and> b = y)
   \<or> (x \<ge> 2 \<and> a = x - 1 \<and> b = y)
   \<or> (a = x \<and> b = y + 1)
   \<or> (y \<ge> 2 \<and> a = x \<and> b = y - 1)
   \<or> (y \<ge> 2 \<and> a = x + 1 \<and> b = y - 1)
   \<or> ((y \<ge> 2 \<and> x \<ge> 2) \<and> a = x - 1 \<and> b = y - 1)
   \<or> (a = x + 1 \<and> b = y + 1)
   \<or> (a = x - 1 \<and> b = y + 1)
   \<longleftrightarrow> \<not> (x = a \<and> y = b) \<and> (a = x + 1 \<or> a = x \<or> a = x - 1) \<and> (b = y + 1 \<or> b = y \<or> b = y - 1)"
    (is "?L \<longleftrightarrow> ?R")
proof
  assume ?L
  then show ?R
    by (elim disjE conjE) simp_all
next
  assume ?R
  then show ?L
    using p by (elim disjE conjE) simp_all
qed

lemma set_get_neighbours:
  assumes "inside_board s d" "1 \<le> fst c" "1 \<le> snd c"
  shows "c \<in> set (get_neighbours s d) \<longleftrightarrow> adjacent d c"
proof -
  obtain x y where d: "d = (x, y)" by (cases d)
  obtain a b where c: "c = (a, b)" by (cases c)
  have w: "within x (board_width s)" "within y (board_height s)" and xy: "1 \<le> x" "1 \<le> y"
    using assms(1) by (simp_all add: inside_board_def d)
  have p: "1 \<le> a" "1 \<le> b" using assms(2,3) by (simp_all add: c)
  show ?thesis
    unfolding d c mem_get_neighbours adjacent_iff eight_neighbours [OF p xy, symmetric]
    using w by simp
qed

lemma is_near_cell_iff:
  assumes "cells_within_bounds s" "1 \<le> fst c" "1 \<le> snd c"
  shows "is_near_cell s c \<longleftrightarrow> (\<exists>d \<in> cells s. adjacent d c)"
proof -
  have "c \<in> set (get_neighbours s d) \<longleftrightarrow> adjacent d c" if "d \<in> cells s" for d
  proof (rule set_get_neighbours)
    show "inside_board s d" using that assms(1) unfolding cells_within_bounds_def by blast
  qed (rule assms)+
  then show ?thesis
    unfolding is_near_cell_def by blast
qed

lemma is_near_ship_iff:
  assumes "cells_within_bounds s" "\<forall>c \<in> cells other. 1 \<le> fst c \<and> 1 \<le> snd c"
  shows "is_near_ship s other \<longleftrightarrow> (\<exists>c \<in> cells other. \<exists>d \<in> cells s. adjacent d c)"
proof -
  have "is_near_cell s c \<longleftrightarrow> (\<exists>d \<in> cells s. adjacent d c)" if "c \<in> cells other" for c
    using that assms(2) is_near_cell_iff [OF assms(1), of c] by blast
  then show ?thesis
    unfolding is_near_ship_def by blast
qed

text \<open>
  Claim C6. For a ship whose occupied cells lie inside its board and a cell inside
  that board, \<open>is_near_cell\<close> holds iff some occupied cell other than the given cell
  differs from it by at most one along each axis. \<open>is_near_ship\<close> holds iff
  \<open>is_near_cell\<close> holds of some cell of the other ship, which for another ship inside
  the board means that one of its cells is such a neighbour of an occupied cell.
\<close>

theorem nearness_is_eight_adjacency:
  assumes "cells_within_bounds s"
  shows "(inside_board s c \<longrightarrow>
          (is_near_cell s c \<longleftrightarrow>
            (\<exists>d \<in> cells s. d \<noteq> c \<and> \<bar>fst d - fst c\<bar> \<le> 1 \<and> \<bar>snd d - snd c\<bar> \<le> 1)))
    \<and> (is_near_ship s other \<longleftrightarrow> (\<exists>c \<in> cells other. is_near_cell s c))
    \<and> ((\<forall>c \<in> cells other. inside_board s c) \<longrightarrow>
          (is_near_ship s other \<longleftrightarrow>
            (\<exists>c \<in> cells other. \<exists>d \<in> cells s.
                d \<noteq> c \<and> \<bar>fst d - fst c\<bar> \<le> 1 \<and> \<bar>snd d - snd c\<bar> \<le> 1)))"
proof (intro conjI impI)
  assume "inside_board s c"
  then have "1 \<le> fst c" "1 \<le> snd c" by (simp_all add: inside_board_def)
  from is_near_cell_iff [OF assms this]
  show "is_near_cell s c \<longleftrightarrow> (\<exists>d \<in> cells s. d \<noteq> c \<and> \<bar>fst d - fst c\<bar> \<le> 1 \<and> \<bar>snd d - snd c\<bar> \<le> 1)"
    unfolding adjacent_def .
next
  show "is_near_ship s other \<longleftrightarrow> (\<exists>c \<in> cells other. is_near_cell s c)"
    unfolding is_near_ship_def ..
next
  assume "\<forall>c \<in> cells other. inside_board s c"
  then have "\<forall>c \<in> cells other. 1 \<le> fst c \<and> 1 \<le> snd c"
    by (simp add: inside_board_def)
  from is_near_ship_iff [OF assms this]
  show "is_near_ship s other \<longleftrightarrow> (\<exists>c \<in> cells other. \<exists>d \<in> cells s. d \<noteq> c \<and> \<bar>fst d - fst c\<bar> \<le> 1 \<and> \<bar>snd d - snd c\<bar> \<le> 1)"
    unfolding adjacent_def .
qed

theorem nearness_is_eight_adjacency_witness:
  "cells_within_bounds \<lparr>x_start = 2, y_start = 2, x_end = 4, y_end = 2,
            cells = {(2, 2), (3, 2), (4, 2)}, damaged_cells = {},
            board_width = Bounded 10, board_height = Bounded 10\<rparr>
   \<and> inside_board \<lparr>x_start = 2, y_start = 2, x_end = 4, y_end = 2,
            cells = {(2, 2), (3, 2), (4, 2)}, damaged_cells = {},
            board_width = Bounded 10, board_height = Bounded 10\<rparr> (1, 3)
   \<and> is_near_cell \<lparr>x_start = 2, y_start = 2, x_end = 4, y_end = 2,
            cells = {(2, 2), (3, 2), (4, 2)}, damaged_cells = {},
            board_width = Bounded 10, board_height = Bounded 10\<rparr> (1, 3)
   \<and> \<not> is_near_cell \<lparr>x_start = 2, y_start = 2, x_end = 4, y_end = 2,
            cells = {(2, 2), (3, 2), (4, 2)}, damaged_cells = {},
            board_width = Bounded 10, board_height = Bounded 10\<rparr> (3, 4)
   \<and> \<not> is_near_cell \<lparr>x_start = 2, y_start = 2, x_end = 4, y_end = 2,
            cells = {(2, 2), (3, 2), (4, 2)}, damaged_cells = {},
            board_width = Bounded 10, board_height = Bounded 10\<rparr> (6, 2)
   \<and> is_near_ship \<lparr>x_start = 2, y_start = 2, x_end = 4, y_end = 2,
            cells = {(2, 2), (3, 2), (4, 2)}, damaged_cells = {},
            board_width = Bounded 10, board_height = Bounded 10\<rparr>
          \<lparr>x_start = 5, y_start = 3, x_end = 5, y_end = 4,
            cells = {(5, 3), (5, 4)}, damaged_cells = {},
            board_width = Bounded 10, board_height = Bounded 10\<rparr>"
proof -
  define s where "s = \<lparr>x_start = 2, y_start = 2, x_end = 4, y_end = 2,
            cells = {(2, 2), (3, 2), (4, 2)}, damaged_cells = {},
            board_width = Bounded 10, board_height = Bounded 10\<rparr>"
  define other where "other = \<lparr>x_start = 5, y_start = 3, x_end = 5, y_end = 4,
            cells = {(5 :: int, 3 :: int), (5, 4)}, damaged_cells = {},
            board_width = Bounded 10, board_height = Bounded 10\<rparr>"
  have b: "cells_within_bounds s"
    by (simp add: s_def cells_within_bounds_def inside_board_def)
  have i: "inside_board s (1, 3)" "inside_board s (3, 4)" "inside_board s (6, 2)"
    by (simp_all add: s_def inside_board_def)
  have o: "\<forall>c \<in> cells other. inside_board s c"
    by (simp add: s_def other_def inside_board_def)
  have "is_near_cell s (1, 3)"
    using nearness_is_eight_adjacency [OF b, where c = "(1, 3)"] i by (simp add: s_def)
  moreover have "\<not> is_near_cell s (3, 4)"
    using nearness_is_eight_adjacency [OF b, where c = "(3, 4)"] i by (simp add: s_def)
  moreover have "\<not> is_near_cell s (6, 2)"
    using nearness_is_eight_adjacency [OF b, where c = "(6, 2)"] i by (simp add: s_def)
  moreover have "is_near_ship s other"
    using nearness_is_eight_adjacency [OF b, where other = other] o
    by (simp add: s_def other_def)
  ultimately show ?thesis
    using b i unfolding s_def other_def by simp
qed
section \<open>Properties of ShipFactory\<close>

subsection \<open>Ships built for a board\<close>

lemma Ship_init_finite:
  assumes "Ship_init start stop v bw bh = Inr s"
  shows "finite (cells s)" "cells s \<noteq> {}"
proof -
  have c: "cells s = {x_start s..x_end s} \<times> {y_start s..y_end s}"
    using assms by (rule Ship_init_cells)
  show "finite (cells s)" unfolding c by simp
  have "x_start s \<le> x_end s" "y_start s \<le> y_end s"
    using Ship_init_Inr [OF assms] by simp_all
  then show "cells s \<noteq> {}" unfolding c by simp
qed

lemma Ship_init_card:
  assumes "Ship_init start stop v bw bh = Inr s"
  shows "int (length_ship s) = (x_end s - x_start s + 1) * (y_end s - y_start s + 1)"
proof -
  have c: "cells s = {x_start s..x_end s} \<times> {y_start s..y_end s}"
    using assms by (rule Ship_init_cells)
  have "x_start s \<le> x_end s" "y_start s \<le> y_end s"
    using Ship_init_Inr [OF assms] by simp_all
  then show ?thesis
    unfolding length_ship_def c card_cartesian_product by simp
qed

lemma are_overlapping_self:
  "cells s \<noteq> {} \<Longrightarrow> are_overlapping s s"
  by (auto simp: are_overlapping_def)

lemma check_against_iff:
  "check_against placed t \<longleftrightarrow> (\<forall>s \<in> set placed. \<not> are_overlapping s t \<and> \<not> is_near_ship s t)"
  by (induction placed) auto

lemma check_coordinates_member:
  assumes "t \<in> set placed" "cells t \<noteq> {}"
  shows "\<not> check_coordinates self placed (Some t)"
  using assms are_overlapping_self [of t]
  by (auto simp: check_coordinates_def check_against_iff)

lemma randint_range:
  "randint a b rng = Ok (v, rng') \<Longrightarrow> a \<le> v \<and> v \<le> b"
proof -
  assume r: "randint a b rng = Ok (v, rng')"
  then have ab: "a \<le> b" by (auto simp: randint_def split: if_splits)
  from r obtain r0 where v: "v = a + r0 mod (b - a + 1)"
    by (auto simp: randint_def split: if_splits list.splits)
  have "0 < b - a + 1" using ab by simp
  from pos_mod_sign [OF this, of r0] pos_mod_bound [OF this, of r0] v
  show ?thesis by linarith
qed

lemma generate_random_coordinates_shape:
  assumes "generate_random_coordinates self l rng = Ok ((start, stop), rng')"
  shows "(fst stop = fst start \<and> snd stop = snd start + l - 1)
       \<or> (snd stop = snd start \<and> fst stop = fst start + l - 1)"
  using assms unfolding generate_random_coordinates_def
  by (auto split: outcome.splits if_splits)

lemma generated_length:
  assumes g: "generate_random_coordinates self l rng = Ok ((start, stop), rng')"
    and s: "Ship_init start stop v bw bh = Inr s" and l: "1 \<le> l"
  shows "int (length_ship s) = l"
proof -
  note f = Ship_init_Inr [OF s]
  from generate_random_coordinates_shape [OF g]
  show ?thesis
  proof
    assume "fst stop = fst start \<and> snd stop = snd start + l - 1"
    with f l have "x_end s = x_start s" "y_end s = y_start s + l - 1" by simp_all
    then show ?thesis unfolding Ship_init_card [OF s] by simp
  next
    assume "snd stop = snd start \<and> fst stop = fst start + l - 1"
    with f l have "y_end s = y_start s" "x_end s = x_start s + l - 1" by simp_all
    then show ?thesis unfolding Ship_init_card [OF s] by simp
  qed
qed


subsection \<open>The fleet under construction\<close>

lemma on_board_of_cells:
  assumes "on_board_of self s"
  shows "cells s = {x_start s..x_end s} \<times> {y_start s..y_end s}"
    and "board_width s = Bounded (fst (board_size self))"
    and "board_height s = Bounded (snd (board_size self))"
    and "cells_on_board (fst (board_size self)) (snd (board_size self)) s"
    and "cells_within_bounds s" and "cells s \<noteq> {}"
proof -
  from assms obtain start stop where
    s: "Ship_init start stop True (Bounded (fst (board_size self)))
          (Bounded (snd (board_size self))) = Inr s"
    and b: "is_ship_in_bound self s"
    by (auto simp: on_board_of_def built_for_def)
  show c: "cells s = {x_start s..x_end s} \<times> {y_start s..y_end s}"
    using s by (rule Ship_init_cells)
  show w: "board_width s = Bounded (fst (board_size self))"
    and h: "board_height s = Bounded (snd (board_size self))"
    using Ship_init_Inr [OF s] by simp_all
  show "cells_on_board (fst (board_size self)) (snd (board_size self)) s"
    using b unfolding cells_on_board_def c is_ship_in_bound_def by auto
  show "cells_within_bounds s"
    using b unfolding cells_within_bounds_def inside_board_def c w h is_ship_in_bound_def
    by auto
  show "cells s \<noteq> {}"
    using s by (rule Ship_init_finite)
qed

lemma apart_iff:
  "apart s t \<longleftrightarrow> \<not> are_overlapping s t \<and> \<not> (\<exists>c \<in> cells t. \<exists>d \<in> cells s. adjacent d c)"
proof -
  have e: "(\<bar>fst a - fst b\<bar> \<le> 1 \<and> \<bar>snd a - snd b\<bar> \<le> 1) \<longleftrightarrow> a = b \<or> adjacent a b" for a b :: cell
    by (cases "a = b") (simp_all add: adjacent_def)
  show ?thesis
    unfolding apart_def are_overlapping_def e by blast
qed

lemma apart_sym: "apart s t \<Longrightarrow> apart t s"
  unfolding apart_def by (metis abs_minus_commute)

lemma check_coordinates_apart:
  assumes "check_coordinates self placed (Some t)" "built_for self t"
    and "\<forall>s \<in> set placed. on_board_of self s"
  shows "on_board_of self t" "\<forall>s \<in> set placed. apart s t"
proof -
  from assms(1) have b: "is_ship_in_bound self t"
    and a: "\<forall>s \<in> set placed. \<not> are_overlapping s t \<and> \<not> is_near_ship s t"
    by (simp_all add: check_coordinates_def check_against_iff split: if_splits)
  from b assms(2) show t: "on_board_of self t"
    by (simp add: on_board_of_def)
  have p: "\<forall>c \<in> cells t. 1 \<le> fst c \<and> 1 \<le> snd c"
    using on_board_of_cells(4) [OF t] by (simp add: cells_on_board_def)
  show "\<forall>s \<in> set placed. apart s t"
  proof
    fix s assume s: "s \<in> set placed"
    with assms(3) have "cells_within_bounds s"
      using on_board_of_cells(5) by blast
    from is_near_ship_iff [OF this p] a s show "apart s t"
      unfolding apart_iff by blast
  qed
qed

lemma each_apart_append:
  "each_apart (xs @ ys) \<longleftrightarrow>
     each_apart xs \<and> each_apart ys \<and> (\<forall>s \<in> set xs. \<forall>t \<in> set ys. apart s t)"
  by (induction xs) auto

lemma each_apart_nth:
  "each_apart fleet \<longleftrightarrow>
     (\<forall>i < length fleet. \<forall>j < length fleet. i \<noteq> j \<longrightarrow> apart (fleet ! i) (fleet ! j))"
proof (induction fleet)
  case Nil
  show ?case by simp
next
  case (Cons s rest)
  show ?case (is "?L \<longleftrightarrow> ?R")
  proof
    assume l: ?L
    show ?R
    proof (intro allI impI)
      fix i j assume ij: "i < length (s # rest)" "j < length (s # rest)" "i \<noteq> j"
      show "apart ((s # rest) ! i) ((s # rest) ! j)"
      proof (cases i)
        case 0
        with ij obtain j' where "j = Suc j'" "j' < length rest" by (cases j) auto
        with 0 l show ?thesis by simp
      next
        case (Suc i')
        show ?thesis
        proof (cases j)
          case 0
          with Suc ij l have "apart s (rest ! i')" by simp
          with 0 Suc show ?thesis by (simp add: apart_sym)
        next
          case j: (Suc j')
          with Suc ij l Cons.IH show ?thesis by simp
        qed
      qed
    qed
  next
    assume r: ?R
    have "\<forall>t \<in> set rest. apart s t"
    proof
      fix t assume "t \<in> set rest"
      then obtain k where "k < length rest" "t = rest ! k"
        by (auto simp: in_set_conv_nth)
      with r [rule_format, of 0 "Suc k"] show "apart s t" by simp
    qed
    moreover have "each_apart rest"
      unfolding Cons.IH
    proof (intro allI impI)
      fix i j assume "i < length rest" "j < length rest" "i \<noteq> j"
      with r [rule_format, of "Suc i" "Suc j"] show "apart (rest ! i) (rest ! j)" by simp
    qed
    ultimately show ?L by simp
  qed
qed

lemma place_ship_Done:
  assumes "place_ship self placed st l n rng = Ok (Done (s, n'), rng')"
  shows "check_coordinates self placed (Some s)
       \<and> (st = Some s \<or> built_for self s \<and> (1 \<le> l \<longrightarrow> int (length_ship s) = l))
       \<and> (n \<le> max_iterations \<longrightarrow> n' \<le> max_iterations)"
  using assms
proof (induction self placed st l n rng rule: place_ship.induct)
  case (1 self placed st l n rng)
  from "1.prems" show ?case
  proof (cases rule: place_ship_cases)
    case (accept tested)
    then show ?thesis by simp
  next
    case (give_up start stop new_ship)
    then show ?thesis by simp
  next
    case (retry start stop rng1 new_ship)
    have "(if check_coordinates self placed st then st else None) = None"
      using retry(1) by simp
    note ih = "1.IH" [OF this retry(2) refl refl retry(3) retry(4) retry(5)]
    have "built_for self new_ship"
      using retry(3) unfolding built_for_def by blast
    moreover have "1 \<le> l \<longrightarrow> int (length_ship new_ship) = l"
      using generated_length [OF retry(2) retry(3)] by blast
    ultimately show ?thesis
      using ih retry(4) by auto
  qed
qed

lemma place_ship_extends:
  assumes p: "place_ship self placed st l n rng = Ok (Done (s, n'), rng')"
    and f: "fleet_so_far self placed st"
  shows "fleet_so_far self (placed @ [s]) (Some s)" "1 \<le> l \<longrightarrow> int (length_ship s) = l"
proof -
  note d = place_ship_Done [OF p]
  have "st \<noteq> Some s"
  proof
    assume "st = Some s"
    with f have "s \<in> set placed" "on_board_of self s"
      by (simp_all add: fleet_so_far_def)
    with check_coordinates_member [OF this(1) on_board_of_cells(6) [OF this(2)]] d
    show False by simp
  qed
  with d have b: "built_for self s" and l: "1 \<le> l \<longrightarrow> int (length_ship s) = l"
    by simp_all
  show "1 \<le> l \<longrightarrow> int (length_ship s) = l" by (rule l)
  have a: "\<forall>s \<in> set placed. on_board_of self s"
    using f by (simp add: fleet_so_far_def)
  from check_coordinates_apart [OF _ b a] d
  have "on_board_of self s" "\<forall>t \<in> set placed. apart t s" by simp_all
  with f show "fleet_so_far self (placed @ [s]) (Some s)"
    by (simp add: fleet_so_far_def each_apart_append)
qed



lemma number_of_length_append:
  "number_of_length l (xs @ ys) = number_of_length l xs + number_of_length l ys"
  by (simp add: number_of_length_def)

lemma number_of_length_same:
  assumes "\<forall>s \<in> set new. int (length_ship s) = l0"
  shows "number_of_length l new = (if l = l0 then int (length new) else 0)"
proof -
  have "filter (\<lambda>s. int (length_ship s) = l) new = (if l = l0 then new else [])"
    using assms by (induction new) auto
  then show ?thesis
    by (simp add: number_of_length_def)
qed

lemma place_number_of_ships_Done:
  assumes "place_number_of_ships self l k placed st rng = Ok (Done (placed', st'), rng')"
    and "fleet_so_far self placed st" and "k = 0 \<or> 1 \<le> l"
  shows "\<exists>new. placed' = placed @ new \<and> length new = k
            \<and> (\<forall>s \<in> set new. int (length_ship s) = l) \<and> fleet_so_far self placed' st'"
  using assms
proof (induction k arbitrary: placed st rng)
  case 0
  then show ?case by simp
next
  case (Suc k)
  from Suc.prems(1) obtain p rng1 where
    p: "place_ship self placed st l 0 rng = Ok (p, rng1)"
    by (auto split: outcome.splits)
  with Suc.prems(1) obtain s n where d: "p = Done (s, n)"
    by (cases p) auto
  with p Suc.prems(1)
  have r: "place_number_of_ships self l k (placed @ [s]) (Some s) rng1 = Ok (Done (placed', st'), rng')"
    by simp
  from Suc.prems(3) have l: "1 \<le> l" by simp
  note e = place_ship_extends [OF p [unfolded d] Suc.prems(2)]
  from Suc.IH [OF r e(1)] l obtain new where
    n: "placed' = (placed @ [s]) @ new" "length new = k" "\<forall>s \<in> set new. int (length_ship s) = l"
      "fleet_so_far self placed' st'"
    by blast
  have "placed' = placed @ (s # new)" "length (s # new) = Suc k"
    "\<forall>t \<in> set (s # new). int (length_ship t) = l"
    using n e(2) l by simp_all
  with n(4) show ?case by blast
qed

lemma place_ships_per_length_Done:
  assumes "place_ships_per_length self items placed st rng = Ok (Done (placed', st'), rng')"
    and "fleet_so_far self placed st" and "\<forall>(l, n) \<in> set items. 0 < n \<longrightarrow> 1 \<le> l"
  shows "\<exists>new. placed' = placed @ new \<and> fleet_so_far self placed' st'
            \<and> (\<forall>l. number_of_length l new = requested l items)"
  using assms
proof (induction items arbitrary: placed st rng)
  case Nil
  then show ?case by (simp add: requested_def number_of_length_def)
next
  case (Cons item items)
  obtain l0 n0 where item: "item = (l0, n0)" by (cases item)
  from Cons.prems(1) obtain p rng1 where
    p: "place_number_of_ships self l0 (nat n0) placed st rng = Ok (p, rng1)"
    unfolding item by (auto split: outcome.splits)
  with Cons.prems(1) obtain ships1 st1 where d: "p = Done (ships1, st1)"
    unfolding item by (cases p) auto
  with p Cons.prems(1)
  have r: "place_ships_per_length self items ships1 st1 rng1 = Ok (Done (placed', st'), rng')"
    unfolding item by simp
  have "nat n0 = 0 \<or> 1 \<le> l0"
    using Cons.prems(3) unfolding item by auto
  from place_number_of_ships_Done [OF p [unfolded d] Cons.prems(2) this] obtain new1 where
    n1: "ships1 = placed @ new1" "length new1 = nat n0" "\<forall>s \<in> set new1. int (length_ship s) = l0"
      "fleet_so_far self ships1 st1"
    by blast
  have "\<forall>(l, n) \<in> set items. 0 < n \<longrightarrow> 1 \<le> l"
    using Cons.prems(3) by simp
  from Cons.IH [OF r n1(4) this] obtain new2 where
    n2: "placed' = ships1 @ new2" "fleet_so_far self placed' st'"
      "\<forall>l. number_of_length l new2 = requested l items"
    by blast
  have "number_of_length l (new1 @ new2) = requested l (item # items)" for l
    unfolding number_of_length_append number_of_length_same [OF n1(3)] n1(2) item
    using n2(3) by (simp add: requested_def)
  with n1(1) n2(1,2) show ?case
    by (intro exI [of _ "new1 @ new2"]) simp
qed

lemma requested_distinct:
  assumes "distinct (map fst items)"
  shows "requested l items = (case map_of items l of None \<Rightarrow> 0 | Some n \<Rightarrow> int (nat n))"
  using assms
proof (induction items)
  case Nil
  show ?case by (simp add: requested_def)
next
  case (Cons item items)
  obtain l0 n0 where item: "item = (l0, n0)" by (cases item)
  from Cons.prems have "l0 \<notin> fst ` set items" "distinct (map fst items)"
    unfolding item by simp_all
  then have "map_of items l0 = None" "requested l items = (case map_of items l of None \<Rightarrow> 0 | Some n \<Rightarrow> int (nat n))"
    using Cons.IH by (simp_all add: map_of_eq_None_iff)
  then show ?case
    unfolding item by (simp add: requested_def)
qed

text \<open>The draws that a computation leaves are an end of the draws it was given.\<close>

lemma randint_draws:
  "randint a b rng = Ok (v, rng') \<Longrightarrow> \<exists>r. rng = r # rng'"
  by (auto simp: randint_def split: if_splits list.splits)

lemma generate_random_coordinates_draws:
  assumes "generate_random_coordinates self dimension rng = Ok (se, rng')"
  shows "\<exists>used. rng = used @ rng'"
proof -
  from assms have "\<exists>r1 r2 r3. rng = r1 # r2 # r3 # rng'"
    unfolding generate_random_coordinates_def
    by (auto split: outcome.splits if_splits dest!: randint_draws)
  then obtain r1 r2 r3 where "rng = [r1, r2, r3] @ rng'" by auto
  then show ?thesis ..
qed

lemma place_ship_draws:
  "place_ship self placed st l n rng = Ok (r, rng') \<Longrightarrow> \<exists>used. rng = used @ rng'"
proof (induction self placed st l n rng rule: place_ship.induct)
  case (1 self placed st l n rng)
  from "1.prems" show ?case
  proof (cases rule: place_ship_cases)
    case (accept tested)
    then show ?thesis by simp
  next
    case (give_up start stop new_ship)
    from generate_random_coordinates_draws [OF give_up(2)] show ?thesis .
  next
    case (retry start stop rng1 new_ship)
    have "(if check_coordinates self placed st then st else None) = None"
      using retry(1) by simp
    from "1.IH" [OF this retry(2) refl refl retry(3) retry(4) retry(5)]
      generate_random_coordinates_draws [OF retry(2)]
    obtain u1 u2 where "rng1 = u1 @ rng'" "rng = u2 @ rng1" by blast
    then have "rng = (u2 @ u1) @ rng'" by simp
    then show ?thesis ..
  qed
qed

lemma place_number_of_ships_draws:
  "place_number_of_ships self l k placed st rng = Ok (r, rng') \<Longrightarrow> \<exists>used. rng = used @ rng'"
proof (induction k arbitrary: placed st rng)
  case 0
  then show ?case by auto
next
  case (Suc k)
  from Suc.prems obtain p rng1 where
    p: "place_ship self placed st l 0 rng = Ok (p, rng1)"
    by (auto split: outcome.splits)
  show ?case
  proof (cases p)
    case GiveUp
    with p Suc.prems place_ship_draws [OF p] show ?thesis by auto
  next
    case (Done a)
    obtain accepted n where a: "a = (accepted, n)" by (cases a)
    from p Done a Suc.prems
    have "place_number_of_ships self l k (placed @ [accepted]) (Some accepted) rng1 = Ok (r, rng')"
      by simp
    from Suc.IH [OF this] place_ship_draws [OF p]
    obtain u1 u2 where "rng1 = u1 @ rng'" "rng = u2 @ rng1" by blast
    then have "rng = (u2 @ u1) @ rng'" by simp
    then show ?thesis ..
  qed
qed

lemma place_ships_per_length_draws:
  "place_ships_per_length self items placed st rng = Ok (r, rng') \<Longrightarrow> \<exists>used. rng = used @ rng'"
proof (induction items arbitrary: placed st rng)
  case Nil
  then show ?case by auto
next
  case (Cons item items)
  obtain l n where item: "item = (l, n)" by (cases item)
  from Cons.prems obtain p rng1 where
    p: "place_number_of_ships self l (nat n) placed st rng = Ok (p, rng1)"
    unfolding item by (auto split: outcome.splits)
  show ?case
  proof (cases p)
    case GiveUp
    with p Cons.prems place_number_of_ships_draws [OF p] show ?thesis
      unfolding item by auto
  next
    case (Done a)
    obtain ships1 st1 where a: "a = (ships1, st1)" by (cases a)
    from p Done a Cons.prems
    have "place_ships_per_length self items ships1 st1 rng1 = Ok (r, rng')"
      unfolding item by simp
    from Cons.IH [OF this] place_number_of_ships_draws [OF p]
    obtain u1 u2 where "rng1 = u1 @ rng'" "rng = u2 @ rng1" by blast
    then have "rng = (u2 @ u1) @ rng'" by simp
    then show ?thesis ..
  qed
qed

text \<open>
  A fleet that \<open>generate_ships\<close> returns is the fleet of one complete pass, from the
  empty list, on an end of the draws; and the fleet of a complete pass is returned.
\<close>

lemma generate_ships_pass:
  "generate_ships depth self rng = Ok fleet
    \<Longrightarrow> \<exists>used rng0 st rng'. rng = used @ rng0
          \<and> place_ships_per_length self (ships_per_length self) [] None rng0
              = Ok (Done (fleet, st), rng')"
proof (induction depth arbitrary: rng)
  case 0
  then show ?case by (simp add: generate_ships.simps)
next
  case (Suc depth)
  from Suc.prems obtain p rng1 where
    p: "place_ships_per_length self (ships_per_length self) [] None rng = Ok (p, rng1)"
    by (subst (asm) generate_ships.simps) (auto split: outcome.splits)
  show ?case
  proof (cases p)
    case GiveUp
    with p Suc.prems have "generate_ships depth self rng1 = Ok fleet"
      by (subst (asm) generate_ships.simps) simp
    from Suc.IH [OF this] obtain u1 rng0 st rng' where
      "rng1 = u1 @ rng0"
      "place_ships_per_length self (ships_per_length self) [] None rng0 = Ok (Done (fleet, st), rng')"
      by blast
    moreover from place_ships_per_length_draws [OF p] obtain u2 where "rng = u2 @ rng1" ..
    ultimately have "rng = (u2 @ u1) @ rng0
      \<and> place_ships_per_length self (ships_per_length self) [] None rng0 = Ok (Done (fleet, st), rng')"
      by simp
    then show ?thesis by blast
  next
    case (Done a)
    obtain placed st where a: "a = (placed, st)" by (cases a)
    with p Done Suc.prems have "placed = fleet"
      by (subst (asm) generate_ships.simps) simp
    with p Done a have "rng = [] @ rng
      \<and> place_ships_per_length self (ships_per_length self) [] None rng = Ok (Done (fleet, st), rng1)"
      by simp
    then show ?thesis by blast
  qed
qed

lemma generate_ships_complete:
  assumes "place_ships_per_length self (ships_per_length self) [] None rng
             = Ok (Done (fleet, st), rng')"
  shows "generate_ships (Suc depth) self rng = Ok fleet"
  by (subst generate_ships.simps) (simp add: assms)

lemma feasible_request:
  assumes "feasible self" "(l, n) \<in> set (ships_per_length self)"
  shows "0 \<le> n" "0 < n \<longrightarrow> 1 \<le> l"
proof -
  from assms(1) obtain layout where
    b: "\<forall>s \<in> set layout. built_for self s"
    and a: "\<forall>(l, n) \<in> set (ships_per_length self). number_of_length l layout = n"
    unfolding feasible_def by (elim exE conjE)
  from a assms(2) have n: "number_of_length l layout = n"
    by fast
  from n show "0 \<le> n" by (auto simp: number_of_length_def)
  show "0 < n \<longrightarrow> 1 \<le> l"
  proof
    assume "0 < n"
    with n have "filter (\<lambda>s. int (length_ship s) = l) layout \<noteq> []"
      by (auto simp: number_of_length_def)
    then obtain s where s: "s \<in> set layout" "int (length_ship s) = l"
      by (auto simp: filter_empty_conv)
    with b obtain start stop bw bh where "Ship_init start stop True bw bh = Inr s"
      unfolding built_for_def by blast
    from Ship_init_finite [OF this] have "0 < card (cells s)"
      by (simp add: card_gt_0_iff)
    with s(2) show "1 \<le> l" by (simp add: length_ship_def)
  qed
qed

text \<open>
  Claim C1. For a request (each length listed once, as in a \<open>dict\<close>) that some legal
  layout on the board satisfies, every list that \<open>generate_ships\<close> returns has
  exactly the requested number of ships of each requested length and none of any
  other length, all its occupied cells lie in \<open>[1, width] \<times> [1, height]\<close>, and no cell
  of one of its ships is a cell of another of its ships or within one grid-step of
  one, diagonals included.
\<close>

theorem generate_ships_legal:
  assumes "distinct (map fst (ships_per_length self))" and "feasible self"
    and "generate_ships depth self rng = Ok fleet"
  shows "(\<forall>(l, n) \<in> set (ships_per_length self). number_of_length l fleet = n)
    \<and> (\<forall>l. l \<notin> fst ` set (ships_per_length self) \<longrightarrow> number_of_length l fleet = 0)
    \<and> legal_fleet (fst (board_size self)) (snd (board_size self)) fleet"
proof -
  from generate_ships_pass [OF assms(3)] obtain used rng0 st rng' where
    p: "place_ships_per_length self (ships_per_length self) [] None rng0 = Ok (Done (fleet, st), rng')"
    by blast
  have f: "fleet_so_far self [] None"
    by (simp add: fleet_so_far_def)
  have "\<forall>(l, n) \<in> set (ships_per_length self). 0 < n \<longrightarrow> 1 \<le> l"
    using feasible_request(2) [OF assms(2)] by blast
  from place_ships_per_length_Done [OF p f this]
  have s: "fleet_so_far self fleet st"
    and r: "\<And>l. number_of_length l fleet = requested l (ships_per_length self)"
    by auto
  have one: "number_of_length l fleet = n" if "(l, n) \<in> set (ships_per_length self)" for l n
  proof -
    from that assms(1) have "map_of (ships_per_length self) l = Some n" by simp
    with feasible_request(1) [OF assms(2) that] show ?thesis
      unfolding r requested_distinct [OF assms(1)] by simp
  qed
  have two: "number_of_length l fleet = 0" if "l \<notin> fst ` set (ships_per_length self)" for l
  proof -
    from that have "map_of (ships_per_length self) l = None"
      by (simp add: map_of_eq_None_iff)
    then show ?thesis
      unfolding r requested_distinct [OF assms(1)] by simp
  qed
  have "\<forall>s \<in> set fleet. cells_on_board (fst (board_size self)) (snd (board_size self)) s"
    using s on_board_of_cells(4) unfolding fleet_so_far_def by blast
  moreover have "each_apart fleet"
    using s by (simp add: fleet_so_far_def)
  ultimately have "legal_fleet (fst (board_size self)) (snd (board_size self)) fleet"
    unfolding legal_fleet_def each_apart_nth by blast
  with one two show ?thesis by blast
qed

subsection \<open>The cap on the attempts\<close>

lemma place_ship_attempts:
  assumes "place_ship self placed st l n rng = Ok (r, rng')" "n \<le> max_iterations"
  shows "(\<forall>s n'. r = Done (s, n') \<longrightarrow>
            n \<le> n' \<and> n' \<le> max_iterations \<and> length rng = length rng' + 3 * nat (n' - n))
       \<and> (r = GiveUp \<longrightarrow> length rng = length rng' + 3 * nat (max_iterations + 1 - n))"
  using assms
proof (induction self placed st l n rng rule: place_ship.induct)
  case (1 self placed st l n rng)
  from "1.prems"(1) show ?case
  proof (cases rule: place_ship_cases)
    case (accept tested)
    with "1.prems"(2) show ?thesis by simp
  next
    case (give_up start stop new_ship)
    with "1.prems"(2) have "max_iterations + 1 - n = 1" by simp
    with give_up generate_random_coordinates_shorter [OF give_up(2)] show ?thesis by simp
  next
    case (retry start stop rng1 new_ship)
    have "(if check_coordinates self placed st then st else None) = None"
      using retry(1) by simp
    note ih = "1.IH" [OF this retry(2) refl refl retry(3) retry(4) retry(5)]
    from retry(4) have n: "n + 1 \<le> max_iterations" by simp
    note l = generate_random_coordinates_shorter [OF retry(2)]
    show ?thesis
    proof (intro conjI allI impI)
      fix s n' assume "r = Done (s, n')"
      with ih n have "n + 1 \<le> n'" "n' \<le> max_iterations"
        "length rng1 = length rng' + 3 * nat (n' - (n + 1))" by simp_all
      moreover from this(1) have "nat (n' - n) = Suc (nat (n' - (n + 1)))" by simp
      ultimately show "n \<le> n'" "n' \<le> max_iterations"
        "length rng = length rng' + 3 * nat (n' - n)" using l by simp_all
    next
      assume "r = GiveUp"
      with ih n have "length rng1 = length rng' + 3 * nat (max_iterations + 1 - (n + 1))" by simp
      moreover from n have "nat (max_iterations + 1 - n) = Suc (nat (max_iterations + 1 - (n + 1)))"
        by simp
      ultimately show "length rng = length rng' + 3 * nat (max_iterations + 1 - n)"
        using l by simp
    qed
  qed
qed

lemma place_number_of_ships_GiveUp:
  assumes "place_number_of_ships self l k placed st rng = Ok (GiveUp, rng')"
  shows "\<exists>ships0 st0 used rng0. rng = used @ rng0
           \<and> place_ship self ships0 st0 l 0 rng0 = Ok (GiveUp, rng')"
  using assms
proof (induction k arbitrary: placed st rng)
  case 0
  then show ?case by simp
next
  case (Suc k)
  from Suc.prems obtain p rng1 where
    p: "place_ship self placed st l 0 rng = Ok (p, rng1)"
    by (auto split: outcome.splits)
  show ?case
  proof (cases p)
    case GiveUp
    with p Suc.prems have "rng = [] @ rng \<and> place_ship self placed st l 0 rng = Ok (GiveUp, rng')"
      by auto
    then show ?thesis by blast
  next
    case (Done a)
    obtain s n where "a = (s, n)" by (cases a)
    with p Done Suc.prems
    have "place_number_of_ships self l k (placed @ [s]) (Some s) rng1 = Ok (GiveUp, rng')"
      by simp
    from Suc.IH [OF this] obtain ships0 st0 u1 rng0 where
      "rng1 = u1 @ rng0" "place_ship self ships0 st0 l 0 rng0 = Ok (GiveUp, rng')"
      by blast
    moreover from place_ship_draws [OF p] obtain u2 where "rng = u2 @ rng1" ..
    ultimately have "rng = (u2 @ u1) @ rng0
      \<and> place_ship self ships0 st0 l 0 rng0 = Ok (GiveUp, rng')"
      by simp
    then show ?thesis by blast
  qed
qed

lemma place_ships_per_length_GiveUp:
  assumes "place_ships_per_length self items placed st rng = Ok (GiveUp, rng')"
  shows "\<exists>ships0 st0 l0 used rng0. rng = used @ rng0
           \<and> place_ship self ships0 st0 l0 0 rng0 = Ok (GiveUp, rng')"
  using assms
proof (induction items arbitrary: placed st rng)
  case Nil
  then show ?case by simp
next
  case (Cons item items)
  obtain l n where item: "item = (l, n)" by (cases item)
  from Cons.prems obtain p rng1 where
    p: "place_number_of_ships self l (nat n) placed st rng = Ok (p, rng1)"
    unfolding item by (auto split: outcome.splits)
  show ?case
  proof (cases p)
    case GiveUp
    with p Cons.prems have "place_number_of_ships self l (nat n) placed st rng = Ok (GiveUp, rng')"
      unfolding item by simp
    from place_number_of_ships_GiveUp [OF this] show ?thesis by blast
  next
    case (Done a)
    obtain ships1 st1 where "a = (ships1, st1)" by (cases a)
    with p Done Cons.prems
    have "place_ships_per_length self items ships1 st1 rng1 = Ok (GiveUp, rng')"
      unfolding item by simp
    from Cons.IH [OF this] obtain ships0 st0 l0 u1 rng0 where
      "rng1 = u1 @ rng0" "place_ship self ships0 st0 l0 0 rng0 = Ok (GiveUp, rng')"
      by blast
    moreover from place_number_of_ships_draws [OF p] obtain u2 where "rng = u2 @ rng1" ..
    ultimately have "rng = (u2 @ u1) @ rng0
      \<and> place_ship self ships0 st0 l0 0 rng0 = Ok (GiveUp, rng')"
      by simp
    then show ?thesis by blast
  qed
qed

lemma generate_ships_restart:
  assumes "place_ships_per_length self (ships_per_length self) [] None rng = Ok (GiveUp, rng')"
  shows "generate_ships (Suc depth) self rng = generate_ships depth self rng'"
  by (subst generate_ships.simps) (simp add: assms)

lemma max_iterations_1000: "max_iterations = 1000"
  by (simp add: max_iterations_def)

text \<open>
  Claim C7. The cap is \<open>max_iterations = 1000\<close>. A ship is accepted after at most
  that many attempts (\<open>n\<close> attempts read \<open>3 * n\<close> draws). The loop gives up at attempt
  \<open>max_iterations + 1\<close>, and then both enclosing loops are left at once, whatever the
  ships placed so far. A pass gives up only in that way, and \<open>generate_ships\<close> then
  returns what the nested run returns, which starts from the empty list on the draws
  that are left (\<open>RecursionError\<close> where the interpreter allows no further nested
  run). The fleet of a pass that comes to its end is returned, so that after a pass
  that gave up the fleet of the next pass, if that pass comes to its end, is what
  \<open>generate_ships\<close> returns; and a fleet that \<open>generate_ships\<close> returns is the fleet
  of one complete pass from the empty list, on an end of the draws.
\<close>

theorem placement_attempts_capped:
  "max_iterations = 1000
   \<and> (\<forall>s n rng'. place_ship self placed st l 0 rng = Ok (Done (s, n), rng') \<longrightarrow>
         n \<le> max_iterations \<and> length rng = length rng' + 3 * nat n)
   \<and> (\<forall>rng'. place_ship self placed st l 0 rng = Ok (GiveUp, rng') \<longrightarrow>
         length rng = length rng' + 3 * nat (max_iterations + 1)
         \<and> place_number_of_ships self l (Suc k) placed st rng = Ok (GiveUp, rng')
         \<and> place_ships_per_length self ((l, int (Suc k)) # items) placed st rng = Ok (GiveUp, rng'))
   \<and> (\<forall>rng'. place_ships_per_length self (ships_per_length self) [] None rng = Ok (GiveUp, rng') \<longrightarrow>
         (\<exists>ships0 st0 l0 used rng0. rng = used @ rng0
            \<and> place_ship self ships0 st0 l0 0 rng0 = Ok (GiveUp, rng'))
         \<and> generate_ships (Suc depth) self rng = generate_ships depth self rng')
   \<and> generate_ships 0 self rng = Raised RecursionError
   \<and> (\<forall>fleet st' rng'.
         place_ships_per_length self (ships_per_length self) [] None rng = Ok (Done (fleet, st'), rng')
         \<longrightarrow> generate_ships (Suc depth) self rng = Ok fleet)
   \<and> (\<forall>rng1 fleet st' rng'.
         place_ships_per_length self (ships_per_length self) [] None rng = Ok (GiveUp, rng1)
         \<and> place_ships_per_length self (ships_per_length self) [] None rng1
             = Ok (Done (fleet, st'), rng')
         \<longrightarrow> generate_ships (Suc (Suc depth)) self rng = Ok fleet)
   \<and> (\<forall>fleet. generate_ships depth self rng = Ok fleet \<longrightarrow>
         (\<exists>used rng0 st' rng'. rng = used @ rng0
            \<and> place_ships_per_length self (ships_per_length self) [] None rng0
                = Ok (Done (fleet, st'), rng')))"
proof (intro conjI allI impI)
  show "max_iterations = 1000" by (rule max_iterations_1000)
next
  fix s n rng' assume p: "place_ship self placed st l 0 rng = Ok (Done (s, n), rng')"
  from place_ship_attempts [OF p] show "n \<le> max_iterations" "length rng = length rng' + 3 * nat n"
    by (simp_all add: max_iterations_1000)
next
  fix rng' assume p: "place_ship self placed st l 0 rng = Ok (GiveUp, rng')"
  from place_ship_attempts [OF p] show "length rng = length rng' + 3 * nat (max_iterations + 1)"
    by (simp add: max_iterations_1000)
  from p show n: "place_number_of_ships self l (Suc k) placed st rng = Ok (GiveUp, rng')"
    by simp
  have "nat (int (Suc k)) = Suc k" by simp
  with n show "place_ships_per_length self ((l, int (Suc k)) # items) placed st rng = Ok (GiveUp, rng')"
    by (simp del: of_nat_Suc)
next
  fix rng'
  assume p: "place_ships_per_length self (ships_per_length self) [] None rng = Ok (GiveUp, rng')"
  from p show "\<exists>ships0 st0 l0 used rng0. rng = used @ rng0
      \<and> place_ship self ships0 st0 l0 0 rng0 = Ok (GiveUp, rng')"
    by (rule place_ships_per_length_GiveUp)
  from p show "generate_ships (Suc depth) self rng = generate_ships depth self rng'"
    by (rule generate_ships_restart)
next
  show "generate_ships 0 self rng = Raised RecursionError"
    by (simp add: generate_ships.simps)
next
  fix fleet st' rng'
  assume "place_ships_per_length self (ships_per_length self) [] None rng
    = Ok (Done (fleet, st'), rng')"
  then show "generate_ships (Suc depth) self rng = Ok fleet"
    by (rule generate_ships_complete)
next
  fix rng1 fleet st' rng'
  assume a: "place_ships_per_length self (ships_per_length self) [] None rng = Ok (GiveUp, rng1)
    \<and> place_ships_per_length self (ships_per_length self) [] None rng1
        = Ok (Done (fleet, st'), rng')"
  then have "generate_ships (Suc (Suc depth)) self rng = generate_ships (Suc depth) self rng1"
    by (intro generate_ships_restart) simp
  also from a have "\<dots> = Ok fleet"
    by (intro generate_ships_complete) simp
  finally show "generate_ships (Suc (Suc depth)) self rng = Ok fleet" .
next
  fix fleet assume "generate_ships depth self rng = Ok fleet"
  then show "\<exists>used rng0 st' rng'. rng = used @ rng0
      \<and> place_ships_per_length self (ships_per_length self) [] None rng0
          = Ok (Done (fleet, st'), rng')"
    by (rule generate_ships_pass)
qed

theorem generate_ships_legal_witness:
  "distinct (map fst (ships_per_length \<lparr>board_size = (3, 3), ships_per_length = [(2, 1), (1, 1)]\<rparr>))
   \<and> feasible \<lparr>board_size = (3, 3), ships_per_length = [(2, 1), (1, 1)]\<rparr>
   \<and> generate_ships 1000 \<lparr>board_size = (3, 3), ships_per_length = [(2, 1), (1, 1)]\<rparr>
         [0, 0, 0, 0, 2, 2]
       = Ok [\<lparr>x_start = 1, y_start = 1, x_end = 2, y_end = 1, cells = {(1, 1), (2, 1)},
               damaged_cells = {}, board_width = Bounded 3, board_height = Bounded 3\<rparr>,
             \<lparr>x_start = 3, y_start = 3, x_end = 3, y_end = 3, cells = {(3, 3)},
               damaged_cells = {}, board_width = Bounded 3, board_height = Bounded 3\<rparr>]
   \<and> number_of_length 2
         [\<lparr>x_start = 1, y_start = 1, x_end = 2, y_end = 1, cells = {(1, 1), (2, 1)},
               damaged_cells = {}, board_width = Bounded 3, board_height = Bounded 3\<rparr>,
          \<lparr>x_start = 3, y_start = 3, x_end = 3, y_end = 3, cells = {(3, 3)},
               damaged_cells = {}, board_width = Bounded 3, board_height = Bounded 3\<rparr>] = 1
   \<and> legal_fleet 3 3
         [\<lparr>x_start = 1, y_start = 1, x_end = 2, y_end = 1, cells = {(1, 1), (2, 1)},
               damaged_cells = {}, board_width = Bounded 3, board_height = Bounded 3\<rparr>,
          \<lparr>x_start = 3, y_start = 3, x_end = 3, y_end = 3, cells = {(3, 3)},
               damaged_cells = {}, board_width = Bounded 3, board_height = Bounded 3\<rparr>]"
proof -
  define fac where "fac = \<lparr>board_size = (3, 3), ships_per_length = [(2, 1), (1, 1)]\<rparr>"
  define s1 where "s1 = \<lparr>x_start = 1, y_start = 1, x_end = 2, y_end = 1, cells = {(1 :: int, 1 :: int), (2, 1)},
               damaged_cells = {}, board_width = Bounded 3, board_height = Bounded 3\<rparr>"
  define s2 where "s2 = \<lparr>x_start = 3, y_start = 3, x_end = 3, y_end = 3, cells = {(3 :: int, 3 :: int)},
               damaged_cells = {}, board_width = Bounded 3, board_height = Bounded 3\<rparr>"
  have d: "distinct (map fst (ships_per_length fac))"
    by (simp add: fac_def)
  have b1: "Ship_init (1, 1) (2, 1) True (Bounded 3) (Bounded 3) = Inr s1"
    unfolding s1_def by code_simp
  have b2: "Ship_init (3, 3) (3, 3) True (Bounded 3) (Bounded 3) = Inr s2"
    unfolding s2_def by code_simp
  have b: "\<forall>s \<in> set [s1, s2]. built_for fac s"
    using b1 b2 by (auto simp: built_for_def fac_def)
  have "each_apart [s1, s2]"
    by (simp add: apart_def s1_def s2_def)
  moreover have "\<forall>s \<in> set [s1, s2]. cells_on_board 3 3 s"
    by (simp add: cells_on_board_def s1_def s2_def)
  ultimately have l: "legal_fleet (fst (board_size fac)) (snd (board_size fac)) [s1, s2]"
    unfolding legal_fleet_def each_apart_nth by (simp add: fac_def)
  have n: "\<forall>(l, n) \<in> set (ships_per_length fac). number_of_length l [s1, s2] = n"
    by (simp add: fac_def number_of_length_def length_ship_def s1_def s2_def)
  have f: "feasible fac"
    unfolding feasible_def using b l n by blast
  have g: "generate_ships 1000 fac [0, 0, 0, 0, 2, 2] = Ok [s1, s2]"
    unfolding fac_def s1_def s2_def by code_simp
  from generate_ships_legal [OF d f g] d f g show ?thesis
    unfolding fac_def s1_def s2_def by simp
qed

text \<open>
  A run with a restart: on a board of 3 by 3 that is to hold two ships of length 1,
  the first ship falls on the centre, which leaves no cell for the second; after
  1001 attempts the pass gives up, and the nested run places the ships in two
  corners.
\<close>

lemma place_ship_stuck:
  assumes "st = Some \<lparr>x_start = 2, y_start = 2, x_end = 2, y_end = 2, cells = {(2, 2)},
        damaged_cells = {}, board_width = Bounded 3, board_height = Bounded 3\<rparr>
      \<or> st = Some \<lparr>x_start = 1, y_start = 1, x_end = 1, y_end = 1, cells = {(1, 1)},
        damaged_cells = {}, board_width = Bounded 3, board_height = Bounded 3\<rparr>"
  shows "place_ship \<lparr>board_size = (3, 3), ships_per_length = [(1, 2)]\<rparr>
     [\<lparr>x_start = 2, y_start = 2, x_end = 2, y_end = 2, cells = {(2, 2)},
        damaged_cells = {}, board_width = Bounded 3, board_height = Bounded 3\<rparr>]
     st 1 (max_iterations - int m) (replicate (3 * Suc m) 0 @ rest) = Ok (GiveUp, rest)"
  using assms
proof (induction m arbitrary: st)
  case 0
  have c: "\<not> check_coordinates \<lparr>board_size = (3, 3), ships_per_length = [(1, 2)]\<rparr>
     [\<lparr>x_start = 2, y_start = 2, x_end = 2, y_end = 2, cells = {(2, 2)},
        damaged_cells = {}, board_width = Bounded 3, board_height = Bounded 3\<rparr>] st"
    using 0 by (elim disjE) (simp, code_simp)+
  have g: "generate_random_coordinates \<lparr>board_size = (3, 3), ships_per_length = [(1, 2)]\<rparr> 1
      (0 # 0 # 0 # rest) = Ok (((1, 1), (1, 1)), rest)"
    by (simp add: generate_random_coordinates_def randint_def)
  have s: "Ship_init (1, 1) (1, 1) True (Bounded 3) (Bounded 3) =
     Inr \<lparr>x_start = 1, y_start = 1, x_end = 1, y_end = 1, cells = {(1, 1)},
        damaged_cells = {}, board_width = Bounded 3, board_height = Bounded 3\<rparr>"
    by code_simp
  have r: "replicate (3 * Suc 0) (0 :: int) @ rest = 0 # 0 # 0 # rest"
    by (simp add: numeral_3_eq_3)
  show ?case
    unfolding r place_ship_retry [OF c] g
    by (simp add: s)
next
  case (Suc m)
  have c: "\<not> check_coordinates \<lparr>board_size = (3, 3), ships_per_length = [(1, 2)]\<rparr>
     [\<lparr>x_start = 2, y_start = 2, x_end = 2, y_end = 2, cells = {(2, 2)},
        damaged_cells = {}, board_width = Bounded 3, board_height = Bounded 3\<rparr>] st"
    using Suc.prems by (elim disjE) (simp, code_simp)+
  have g: "generate_random_coordinates \<lparr>board_size = (3, 3), ships_per_length = [(1, 2)]\<rparr> 1
      (0 # 0 # 0 # further) = Ok (((1, 1), (1, 1)), further)" for further
    by (simp add: generate_random_coordinates_def randint_def)
  have s: "Ship_init (1, 1) (1, 1) True (Bounded 3) (Bounded 3) =
     Inr \<lparr>x_start = 1, y_start = 1, x_end = 1, y_end = 1, cells = {(1, 1)},
        damaged_cells = {}, board_width = Bounded 3, board_height = Bounded 3\<rparr>"
    by code_simp
  have "3 * Suc (Suc m) = Suc (Suc (Suc (3 * Suc m)))" by simp
  then have r: "replicate (3 * Suc (Suc m)) (0 :: int) @ rest
      = 0 # 0 # 0 # replicate (3 * Suc m) 0 @ rest"
    by (simp only: replicate.simps append_Cons)
  have n: "max_iterations - int (Suc m) + 1 = max_iterations - int m" by simp
  have ih: "place_ship \<lparr>board_size = (3, 3), ships_per_length = [(1, 2)]\<rparr>
     [\<lparr>x_start = 2, y_start = 2, x_end = 2, y_end = 2, cells = {(2, 2)},
        damaged_cells = {}, board_width = Bounded 3, board_height = Bounded 3\<rparr>]
     (Some \<lparr>x_start = 1, y_start = 1, x_end = 1, y_end = 1, cells = {(1, 1)},
        damaged_cells = {}, board_width = Bounded 3, board_height = Bounded 3\<rparr>)
     1 (max_iterations - int m) (replicate (3 * Suc m) 0 @ rest) = Ok (GiveUp, rest)"
    by (rule Suc.IH) simp
  show ?case
    unfolding r place_ship_retry [OF c] g
    using ih by (simp add: s n del: replicate.simps of_nat_Suc)
qed

theorem placement_attempts_capped_witness:
  "place_ship \<lparr>board_size = (3, 3), ships_per_length = [(1, 2)]\<rparr> [] None 1 0
       (0 # 1 # 1 # replicate 3003 0 @ [0, 0, 0, 0, 2, 2])
     = Ok (Done (\<lparr>x_start = 2, y_start = 2, x_end = 2, y_end = 2, cells = {(2, 2)},
               damaged_cells = {}, board_width = Bounded 3, board_height = Bounded 3\<rparr>, 1),
           replicate 3003 0 @ [0, 0, 0, 0, 2, 2])
   \<and> (1 :: int) \<le> max_iterations
   \<and> place_ship \<lparr>board_size = (3, 3), ships_per_length = [(1, 2)]\<rparr>
       [\<lparr>x_start = 2, y_start = 2, x_end = 2, y_end = 2, cells = {(2, 2)},
          damaged_cells = {}, board_width = Bounded 3, board_height = Bounded 3\<rparr>]
       (Some \<lparr>x_start = 2, y_start = 2, x_end = 2, y_end = 2, cells = {(2, 2)},
          damaged_cells = {}, board_width = Bounded 3, board_height = Bounded 3\<rparr>)
       1 0 (replicate 3003 0 @ [0, 0, 0, 0, 2, 2]) = Ok (GiveUp, [0, 0, 0, 0, 2, 2])
   \<and> place_ships_per_length \<lparr>board_size = (3, 3), ships_per_length = [(1, 2)]\<rparr> [(1, 2)] [] None
       (0 # 1 # 1 # replicate 3003 0 @ [0, 0, 0, 0, 2, 2]) = Ok (GiveUp, [0, 0, 0, 0, 2, 2])
   \<and> place_ships_per_length \<lparr>board_size = (3, 3), ships_per_length = [(1, 2)]\<rparr> [(1, 2)] [] None
       [0, 0, 0, 0, 2, 2]
     = Ok (Done ([\<lparr>x_start = 1, y_start = 1, x_end = 1, y_end = 1, cells = {(1, 1)},
                    damaged_cells = {}, board_width = Bounded 3, board_height = Bounded 3\<rparr>,
                  \<lparr>x_start = 3, y_start = 3, x_end = 3, y_end = 3, cells = {(3, 3)},
                    damaged_cells = {}, board_width = Bounded 3, board_height = Bounded 3\<rparr>],
                 Some \<lparr>x_start = 3, y_start = 3, x_end = 3, y_end = 3, cells = {(3, 3)},
                    damaged_cells = {}, board_width = Bounded 3, board_height = Bounded 3\<rparr>), [])
   \<and> generate_ships 1000 \<lparr>board_size = (3, 3), ships_per_length = [(1, 2)]\<rparr>
       (0 # 1 # 1 # replicate 3003 0 @ [0, 0, 0, 0, 2, 2])
     = Ok [\<lparr>x_start = 1, y_start = 1, x_end = 1, y_end = 1, cells = {(1, 1)},
             damaged_cells = {}, board_width = Bounded 3, board_height = Bounded 3\<rparr>,
           \<lparr>x_start = 3, y_start = 3, x_end = 3, y_end = 3, cells = {(3, 3)},
             damaged_cells = {}, board_width = Bounded 3, board_height = Bounded 3\<rparr>]
   \<and> generate_ships 1 \<lparr>board_size = (3, 3), ships_per_length = [(1, 2)]\<rparr>
       (0 # 1 # 1 # replicate 3003 0 @ [0, 0, 0, 0, 2, 2])
     = Raised RecursionError"
proof -
  define fac where "fac = \<lparr>board_size = (3 :: int, 3 :: int), ships_per_length = [(1 :: int, 2 :: int)]\<rparr>"
  define c where "c = \<lparr>x_start = 2, y_start = 2, x_end = 2, y_end = 2, cells = {(2 :: int, 2 :: int)},
          damaged_cells = {}, board_width = Bounded 3, board_height = Bounded 3\<rparr>"
  define s1 where "s1 = \<lparr>x_start = 1, y_start = 1, x_end = 1, y_end = 1, cells = {(1 :: int, 1 :: int)},
          damaged_cells = {}, board_width = Bounded 3, board_height = Bounded 3\<rparr>"
  define s3 where "s3 = \<lparr>x_start = 3, y_start = 3, x_end = 3, y_end = 3, cells = {(3 :: int, 3 :: int)},
          damaged_cells = {}, board_width = Bounded 3, board_height = Bounded 3\<rparr>"
  define tail where "tail = [0 :: int, 0, 0, 0, 2, 2]"
  define rest where "rest = replicate 3003 (0 :: int) @ tail"
  have f: "ships_per_length fac = [(1, 2)]" by (simp add: fac_def)
  have "(3003 :: nat) = 3 * Suc 1000" by simp
  then have "replicate 3003 (0 :: int) = replicate (3 * Suc 1000) 0"
    by (rule arg_cong)
  then have r: "rest = replicate (3 * Suc 1000) 0 @ tail"
    unfolding rest_def by simp
  have stuck: "place_ship fac [c] (Some c) 1 0 rest = Ok (GiveUp, tail)"
    using place_ship_stuck [where m = 1000 and st = "Some c" and rest = tail]
    unfolding r fac_def c_def
    by (simp add: max_iterations_1000 del: replicate.simps of_nat_Suc)
  have g: "generate_random_coordinates fac 1 (0 # 1 # 1 # rest) = Ok (((2, 2), (2, 2)), rest)"
    by (simp add: generate_random_coordinates_def randint_def fac_def)
  have i: "Ship_init (2, 2) (2, 2) True (Bounded 3) (Bounded 3) = Inr c"
    unfolding c_def by code_simp
  have a: "check_coordinates fac [] (Some c)"
    by (simp add: check_coordinates_def is_ship_in_bound_def fac_def c_def)
  have first: "place_ship fac [] None 1 0 (0 # 1 # 1 # rest) = Ok (Done (c, 1), rest)"
    unfolding place_ship_retry [OF check_coordinates_None] g
    using i place_ship_accept [OF a]
    by (simp add: fac_def max_iterations_1000)
  note t = placement_attempts_capped [where self = fac and placed = "[c]" and st = "Some c"
      and l = 1 and rng = rest and k = 0 and items = "[]"]
  from t stuck have n: "place_number_of_ships fac 1 (Suc 0) [c] (Some c) rest = Ok (GiveUp, tail)"
    by blast
  have "place_number_of_ships fac 1 (Suc (Suc 0)) [] None (0 # 1 # 1 # rest)
      = place_number_of_ships fac 1 (Suc 0) ([] @ [c]) (Some c) rest"
    by (subst place_number_of_ships.simps(2)) (simp add: first)
  with n have n2: "place_number_of_ships fac 1 (Suc (Suc 0)) [] None (0 # 1 # 1 # rest)
      = Ok (GiveUp, tail)"
    by simp
  have n2': "place_number_of_ships fac 1 2 [] None (0 # 1 # 1 # rest) = Ok (GiveUp, tail)"
    unfolding numeral_2_eq_2 by (rule n2)
  have p: "place_ships_per_length fac [(1, 2)] [] None (0 # 1 # 1 # rest) = Ok (GiveUp, tail)"
    by (subst place_ships_per_length.simps(2)) (simp add: n2' del: place_number_of_ships.simps)
  have q: "place_ships_per_length fac [(1, 2)] [] None tail = Ok (Done ([s1, s3], Some s3), [])"
    unfolding fac_def tail_def s1_def s3_def by code_simp
  have "generate_ships (Suc (Suc 998)) fac (0 # 1 # 1 # rest) = Ok [s1, s3]"
    using placement_attempts_capped [where self = fac and rng = "0 # 1 # 1 # rest" and depth = 998]
      p q
    unfolding f by blast
  then have whole: "generate_ships 1000 fac (0 # 1 # 1 # rest) = Ok [s1, s3]" by simp
  have "generate_ships (Suc 0) fac (0 # 1 # 1 # rest) = generate_ships 0 fac tail"
    using placement_attempts_capped [where self = fac and rng = "0 # 1 # 1 # rest" and depth = 0] p
    unfolding f by blast
  moreover have "generate_ships 0 fac tail = Raised RecursionError"
    using placement_attempts_capped [where self = fac and rng = tail] by blast
  ultimately have deep: "generate_ships 1 fac (0 # 1 # 1 # rest) = Raised RecursionError" by simp
  have m: "(1 :: int) \<le> max_iterations"
    using placement_attempts_capped [where self = fac and placed = "[]" and st = None and l = 1
      and rng = "0 # 1 # 1 # rest"] first by blast
  from first m stuck p q whole deep show ?thesis
    unfolding fac_def c_def s1_def s3_def rest_def tail_def by (intro conjI)
qed
section \<open>Properties of Board\<close>

lemma are_ships_too_close_iff:
  "are_ships_too_close fleet \<longleftrightarrow> \<not> each_apart fleet"
  by (induction fleet) auto

lemma Board_init_legal:
  "(\<exists>b. Board_init fleet w h = Inr b) \<longleftrightarrow> legal_fleet w h fleet"
  unfolding Board_init_def legal_fleet_def are_ships_within_bounds_def are_ships_too_close_iff
    each_apart_nth [symmetric] list_all_iff
  by auto

text \<open>
  Claim C9, on the constructor modelled from the specification. Construction fails
  with a bounds violation if a cell of a ship lies outside \<open>[1, width] \<times> [1, height]\<close>.
  It fails if two ships of the list overlap or have cells within one grid-step of
  each other, diagonals included, and the failure is an adjacency/overlap violation
  when the fleet is within bounds (for a fleet with both defects the model reports the
  bounds). The result is a failure or a board, never anything in between: a board is
  returned exactly for a legal fleet, and it owns the ships and the dimensions given.
\<close>

theorem Board_init_rejects_illegal_fleets:
  "((\<exists>s \<in> set fleet. \<exists>c \<in> cells s. \<not> (1 \<le> fst c \<and> fst c \<le> w \<and> 1 \<le> snd c \<and> snd c \<le> h))
      \<longrightarrow> Board_init fleet w h = Inl BoundsViolation)
   \<and> ((\<exists>i < length fleet. \<exists>j < length fleet. i \<noteq> j \<and>
          (\<exists>a \<in> cells (fleet ! i). \<exists>b \<in> cells (fleet ! j).
              \<bar>fst a - fst b\<bar> \<le> 1 \<and> \<bar>snd a - snd b\<bar> \<le> 1))
      \<longrightarrow> (\<exists>v. Board_init fleet w h = Inl v)
          \<and> ((\<forall>s \<in> set fleet. cells_on_board w h s)
                \<longrightarrow> Board_init fleet w h = Inl AdjacencyViolation))
   \<and> (\<forall>b. Board_init fleet w h = Inr b
      \<longrightarrow> legal_fleet w h fleet \<and> b = \<lparr>ships = fleet, width = w, height = h\<rparr>)
   \<and> (legal_fleet w h fleet
      \<longrightarrow> Board_init fleet w h = Inr \<lparr>ships = fleet, width = w, height = h\<rparr>)"
proof (intro conjI impI allI)
  assume "\<exists>s \<in> set fleet. \<exists>c \<in> cells s. \<not> (1 \<le> fst c \<and> fst c \<le> w \<and> 1 \<le> snd c \<and> snd c \<le> h)"
  then have "\<not> are_ships_within_bounds fleet w h"
    unfolding are_ships_within_bounds_def list_all_iff cells_on_board_def by blast
  then show "Board_init fleet w h = Inl BoundsViolation"
    by (simp add: Board_init_def)
next
  assume a: "\<exists>i < length fleet. \<exists>j < length fleet. i \<noteq> j \<and>
          (\<exists>a \<in> cells (fleet ! i). \<exists>b \<in> cells (fleet ! j).
              \<bar>fst a - fst b\<bar> \<le> 1 \<and> \<bar>snd a - snd b\<bar> \<le> 1)"
  then have "\<not> each_apart fleet"
    unfolding each_apart_nth apart_def by blast
  then have c: "are_ships_too_close fleet"
    by (simp add: are_ships_too_close_iff)
  then show "\<exists>v. Board_init fleet w h = Inl v"
    by (simp add: Board_init_def)
  assume "\<forall>s \<in> set fleet. cells_on_board w h s"
  with c show "Board_init fleet w h = Inl AdjacencyViolation"
    by (simp add: Board_init_def are_ships_within_bounds_def list_all_iff)
next
  fix b assume b: "Board_init fleet w h = Inr b"
  then show "legal_fleet w h fleet"
    using Board_init_legal by blast
  from b show "b = \<lparr>ships = fleet, width = w, height = h\<rparr>"
    by (auto simp: Board_init_def split: if_splits)
next
  assume "legal_fleet w h fleet"
  then obtain b where "Board_init fleet w h = Inr b"
    using Board_init_legal by blast
  then show "Board_init fleet w h = Inr \<lparr>ships = fleet, width = w, height = h\<rparr>"
    by (auto simp: Board_init_def split: if_splits)
qed

theorem Board_init_rejects_illegal_fleets_witness:
  "Board_init [\<lparr>x_start = 11, y_start = 3, x_end = 11, y_end = 3, cells = {(11, 3)},
                 damaged_cells = {}, board_width = Unbounded, board_height = Unbounded\<rparr>] 10 10
     = Inl BoundsViolation
   \<and> Board_init [\<lparr>x_start = 6, y_start = 3, x_end = 7, y_end = 3, cells = {(6, 3), (7, 3)},
                 damaged_cells = {}, board_width = Unbounded, board_height = Unbounded\<rparr>,
               \<lparr>x_start = 8, y_start = 3, x_end = 8, y_end = 3, cells = {(8, 3)},
                 damaged_cells = {}, board_width = Unbounded, board_height = Unbounded\<rparr>] 10 10
     = Inl AdjacencyViolation
   \<and> Board_init [\<lparr>x_start = 5, y_start = 5, x_end = 6, y_end = 5, cells = {(5, 5), (6, 5)},
                 damaged_cells = {}, board_width = Unbounded, board_height = Unbounded\<rparr>,
               \<lparr>x_start = 8, y_start = 3, x_end = 8, y_end = 3, cells = {(8, 3)},
                 damaged_cells = {}, board_width = Unbounded, board_height = Unbounded\<rparr>] 10 10
     = Inr \<lparr>ships = [\<lparr>x_start = 5, y_start = 5, x_end = 6, y_end = 5, cells = {(5, 5), (6, 5)},
                 damaged_cells = {}, board_width = Unbounded, board_height = Unbounded\<rparr>,
               \<lparr>x_start = 8, y_start = 3, x_end = 8, y_end = 3, cells = {(8, 3)},
                 damaged_cells = {}, board_width = Unbounded, board_height = Unbounded\<rparr>],
            width = 10, height = 10\<rparr>"
proof -
  define out where "out = \<lparr>x_start = 11, y_start = 3, x_end = 11, y_end = 3, cells = {(11 :: int, 3 :: int)},
                 damaged_cells = {}, board_width = Unbounded, board_height = Unbounded\<rparr>"
  define two where "two = \<lparr>x_start = 6, y_start = 3, x_end = 7, y_end = 3, cells = {(6 :: int, 3 :: int), (7, 3)},
                 damaged_cells = {}, board_width = Unbounded, board_height = Unbounded\<rparr>"
  define one where "one = \<lparr>x_start = 8, y_start = 3, x_end = 8, y_end = 3, cells = {(8 :: int, 3 :: int)},
                 damaged_cells = {}, board_width = Unbounded, board_height = Unbounded\<rparr>"
  define far where "far = \<lparr>x_start = 5, y_start = 5, x_end = 6, y_end = 5, cells = {(5 :: int, 5 :: int), (6, 5)},
                 damaged_cells = {}, board_width = Unbounded, board_height = Unbounded\<rparr>"
  have "\<exists>s \<in> set [out]. \<exists>c \<in> cells s. \<not> (1 \<le> fst c \<and> fst c \<le> 10 \<and> 1 \<le> snd c \<and> snd c \<le> 10)"
    by (simp add: out_def)
  with Board_init_rejects_illegal_fleets [where fleet = "[out]" and w = 10 and h = 10]
  have a: "Board_init [out] 10 10 = Inl BoundsViolation" by blast
  have "(0 :: nat) < length [two, one] \<and> (1 :: nat) < length [two, one] \<and> (0 :: nat) \<noteq> 1 \<and>
          (\<exists>a \<in> cells ([two, one] ! 0). \<exists>b \<in> cells ([two, one] ! 1).
              \<bar>fst a - fst b\<bar> \<le> 1 \<and> \<bar>snd a - snd b\<bar> \<le> 1)"
    by (simp add: two_def one_def)
  then have "\<exists>i < length [two, one]. \<exists>j < length [two, one]. i \<noteq> j \<and>
          (\<exists>a \<in> cells ([two, one] ! i). \<exists>b \<in> cells ([two, one] ! j).
              \<bar>fst a - fst b\<bar> \<le> 1 \<and> \<bar>snd a - snd b\<bar> \<le> 1)"
    by blast
  moreover have "\<forall>s \<in> set [two, one]. cells_on_board 10 10 s"
    by (simp add: cells_on_board_def two_def one_def)
  ultimately have b: "Board_init [two, one] 10 10 = Inl AdjacencyViolation"
    using Board_init_rejects_illegal_fleets [where fleet = "[two, one]" and w = 10 and h = 10]
    by blast
  have "each_apart [far, one]"
    by (simp add: apart_def far_def one_def)
  moreover have "\<forall>s \<in> set [far, one]. cells_on_board 10 10 s"
    by (simp add: cells_on_board_def far_def one_def)
  ultimately have "legal_fleet 10 10 [far, one]"
    unfolding legal_fleet_def each_apart_nth by blast
  with Board_init_rejects_illegal_fleets [where fleet = "[far, one]" and w = 10 and h = 10]
  have c: "Board_init [far, one] 10 10 = Inr \<lparr>ships = [far, one], width = 10, height = 10\<rparr>"
    by blast
  from a b c show ?thesis
    unfolding out_def two_def one_def far_def by (intro conjI)
qed
section \<open>Properties of AutomaticPlayer\<close>

subsection \<open>The selected target\<close>

lemma target_loop_result:
  assumes "target_loop depth self sunken there_is_a_hunt list_of_hits rng = Ok (c, rng')"
  shows "c \<notin> tracker self \<and> is_it_within_bounds self c
       \<and> (sunken \<longrightarrow> \<not> is_close_to_ship self c)
       \<and> (there_is_a_hunt \<longrightarrow>
            (\<exists>random_cell rng1 rng2.
                hunting_cell depth self random_cell list_of_hits rng1 = Ok ((True, c), rng2)))"
  using assms
proof (induction depth self sunken there_is_a_hunt list_of_hits rng rule: target_loop.induct)
  case (1 depth self sunken there_is_a_hunt list_of_hits rng)
  from "1.prems" obtain random_cell rng1 where
    g: "get_random_coordinates self rng = Ok (random_cell, rng1)"
    by (subst (asm) target_loop.simps) (auto split: outcome.splits)
  define h where "h = (if there_is_a_hunt
                 then hunting_cell depth self random_cell list_of_hits rng1
                 else Ok ((True, random_cell), rng1))"
  from "1.prems" g obtain is_a_hunting_cell random_cell' rng2 where
    h: "h = Ok ((is_a_hunting_cell, random_cell'), rng2)"
    unfolding h_def
    by (subst (asm) target_loop.simps) (auto split: outcome.splits)
  define again where "again \<longleftrightarrow> random_cell' \<in> tracker self
      \<or> (if sunken then is_close_to_ship self random_cell' else False)
      \<or> \<not> is_a_hunting_cell \<or> \<not> is_it_within_bounds self random_cell'"
  from "1.prems" g h have r: "(if again
      then target_loop depth self sunken there_is_a_hunt list_of_hits rng2
      else Ok (random_cell', rng2)) = Ok (c, rng')"
    unfolding h_def again_def
    by (subst (asm) target_loop.simps) (simp add: Let_def)
  show ?case
  proof (cases again)
    case True
    with r have "target_loop depth self sunken there_is_a_hunt list_of_hits rng2 = Ok (c, rng')"
      by simp
    moreover from True have "random_cell' \<in> tracker self
      \<or> (if sunken then is_close_to_ship self random_cell' else False)
      \<or> \<not> is_a_hunting_cell \<or> \<not> is_it_within_bounds self random_cell'"
      by (simp add: again_def)
    ultimately show ?thesis
      using "1.IH" [OF g refl h [unfolded h_def] refl refl refl refl refl] by blast
  next
    case False
    with r have c: "random_cell' = c" "rng2 = rng'" by simp_all
    from False have "c \<notin> tracker self" "is_it_within_bounds self c"
      "sunken \<longrightarrow> \<not> is_close_to_ship self c" "is_a_hunting_cell"
      unfolding again_def c by auto
    moreover from h this(4) c
    have "there_is_a_hunt \<longrightarrow> hunting_cell depth self random_cell list_of_hits rng1 = Ok ((True, c), rng2)"
      by (auto simp: h_def)
    ultimately show ?thesis by blast
  qed
qed


lemma select_target_result:
  assumes "select_target depth self rng = Ok ((target, self'), rng')"
  obtains there_is_a_hunt list_of_hits rng0 where
    "is_there_a_hunt self = Inr (there_is_a_hunt, list_of_hits)"
    "target_loop depth self (are_there_sunken_ships self) there_is_a_hunt list_of_hits rng
       = Ok (target, rng')"
    "self' = self\<lparr>last_target := Some target, tracker := insert target (tracker self)\<rparr>"
proof -
  from assms obtain aimed where
    g: "generate_random_target depth self rng = Ok ((target, aimed), rng')"
    and s: "self' = aimed\<lparr>tracker := insert target (tracker aimed)\<rparr>"
    unfolding select_target_def by (auto split: outcome.splits)
  from g obtain there_is_a_hunt list_of_hits where
    h: "is_there_a_hunt self = Inr (there_is_a_hunt, list_of_hits)"
    unfolding generate_random_target_def Let_def
    by (cases "is_there_a_hunt self") auto
  with g have l: "target_loop depth self (are_there_sunken_ships self) there_is_a_hunt list_of_hits rng
       = Ok (target, rng')" and a: "aimed = self\<lparr>last_target := Some target\<rparr>"
    unfolding generate_random_target_def Let_def by (auto split: outcome.splits)
  from s a have "self' = self\<lparr>last_target := Some target, tracker := insert target (tracker self)\<rparr>"
    by simp
  with h l show ?thesis by (rule that)
qed

lemma mem_get_neighbours_hunt:
  "c \<in> set (get_neighbours_player self hit True)
    \<Longrightarrow> c \<in> {(fst hit + 1, snd hit), (fst hit - 1, snd hit),
              (fst hit, snd hit + 1), (fst hit, snd hit - 1)}"
  unfolding get_neighbours_player_def Let_def set_append Un_iff mem_optional
  by auto


lemma pop_cells_distinct:
  "distinct hits \<Longrightarrow> pop_cells cs hits = Inr l
    \<Longrightarrow> l = filter (\<lambda>c. c \<notin> set cs) hits \<and> distinct l"
proof (induction cs arbitrary: hits)
  case Nil
  then show ?case by simp
next
  case (Cons c cs)
  from Cons.prems(2) have p: "pop_cells cs (remove1 c hits) = Inr l"
    by (simp split: if_splits)
  have r: "remove1 c hits = filter (\<lambda>d. d \<noteq> c) hits"
    using Cons.prems(1) by (simp add: distinct_remove1_removeAll removeAll_filter_not_eq) metis
  have "distinct (remove1 c hits)"
    using Cons.prems(1) by simp
  from Cons.IH [OF this p] show ?case
    unfolding r by (auto simp: conj_commute)
qed

lemma pop_ships_distinct:
  "distinct hits \<Longrightarrow> \<forall>s \<in> set ss. finite (cells s) \<Longrightarrow> pop_ships ss hits = Inr l
    \<Longrightarrow> l = filter (\<lambda>c. \<forall>s \<in> set ss. c \<notin> cells s) hits"
proof (induction ss arbitrary: hits)
  case Nil
  then show ?case by simp
next
  case (Cons s ss)
  from Cons.prems(3) obtain m where
    m: "pop_cells (sorted_list_of_set (cells s)) hits = Inr m" and p: "pop_ships ss m = Inr l"
    by (auto split: sum.splits)
  have f: "set (sorted_list_of_set (cells s)) = cells s"
    using Cons.prems(2) by simp
  from pop_cells_distinct [OF Cons.prems(1) m]
  have "m = filter (\<lambda>c. c \<notin> cells s) hits" "distinct m"
    unfolding f by auto
  moreover from Cons.prems(2) have "\<forall>s \<in> set ss. finite (cells s)" by simp
  ultimately show ?case
    using Cons.IH [OF _ _ p] by (auto simp: conj_commute)
qed

lemma is_there_a_hunt_open_hits:
  assumes "distinct (successful_hits self)" "\<forall>s \<in> set (sunken_ships self). finite (cells s)"
    and "is_there_a_hunt self = Inr (there_is_a_hunt, list_of_hits)"
  shows "list_of_hits = open_hits self"
proof -
  from assms(3) have "pop_ships (sunken_ships self) (successful_hits self) = Inr list_of_hits"
    unfolding is_there_a_hunt_def by (auto split: sum.splits)
  from pop_ships_distinct [OF assms(1,2) this] show ?thesis
    by (simp add: open_hits_def)
qed

text \<open>
  Claim C3. When the memory holds exactly one open hit (the list that
  \<open>is_there_a_hunt\<close> computes is that one cell; or, for a memory that records no
  hit twice, the recorded hits outside every recorded sunken ship are that one cell),
  a cell returned by \<open>select_target\<close> is one of the four non-diagonal neighbours of
  the hit, lies within the bounds of the board and has not been attacked before.
\<close>

theorem single_open_hit_targets_neighbour:
  assumes "select_target depth self rng = Ok ((target, self'), rng')"
    and "(\<exists>there_is_a_hunt. is_there_a_hunt self = Inr (there_is_a_hunt, [hit]))
       \<or> (distinct (successful_hits self) \<and> (\<forall>s \<in> set (sunken_ships self). finite (cells s))
          \<and> open_hits self = [hit])"
  shows "target \<in> {(fst hit + 1, snd hit), (fst hit - 1, snd hit),
                   (fst hit, snd hit + 1), (fst hit, snd hit - 1)}
       \<and> is_it_within_bounds self target \<and> target \<notin> tracker self"
proof -
  from assms(1) obtain there_is_a_hunt list_of_hits where
    h: "is_there_a_hunt self = Inr (there_is_a_hunt, list_of_hits)"
    and l: "target_loop depth self (are_there_sunken_ships self) there_is_a_hunt list_of_hits rng
       = Ok (target, rng')"
    by (rule select_target_result)
  have one: "list_of_hits = [hit]"
    using assms(2) h is_there_a_hunt_open_hits [OF _ _ h] by auto
  with h have hunt: "there_is_a_hunt"
    by (auto simp: is_there_a_hunt_def split: sum.splits)
  note r = target_loop_result [OF l]
  with hunt obtain random_cell rng1 rng2 where
    "hunting_cell depth self random_cell list_of_hits rng1 = Ok ((True, target), rng2)"
    by blast
  then have "target \<in> set (get_neighbours_player self hit True)"
    unfolding one hunting_cell_def by (simp split: if_splits)
  from mem_get_neighbours_hunt [OF this] r show ?thesis
    by blast
qed

theorem single_open_hit_targets_neighbour_witness:
  "select_target 1000
     \<lparr>board = \<lparr>ships = [], width = 10, height = 10\<rparr>, tracker = {(3, 3)}, sunken_ships = [],
      successful_hits = [(3, 3)], last_target = Some (3, 3)\<rparr> [0, 0, 2, 3, 2, 1]
     = Ok (((3, 4),
            \<lparr>board = \<lparr>ships = [], width = 10, height = 10\<rparr>, tracker = {(3, 4), (3, 3)},
             sunken_ships = [], successful_hits = [(3, 3)], last_target = Some (3, 4)\<rparr>), [2, 1])
   \<and> is_there_a_hunt
     \<lparr>board = \<lparr>ships = [], width = 10, height = 10\<rparr>, tracker = {(3, 3)}, sunken_ships = [],
      successful_hits = [(3, 3)], last_target = Some (3, 3)\<rparr> = Inr (True, [(3, 3)])
   \<and> is_it_within_bounds
     \<lparr>board = \<lparr>ships = [], width = 10, height = 10\<rparr>, tracker = {(3, 3)}, sunken_ships = [],
      successful_hits = [(3, 3)], last_target = Some (3, 3)\<rparr> (3, 4)"
proof -
  define p where "p = \<lparr>board = \<lparr>ships = [], width = 10, height = 10\<rparr>, tracker = {(3 :: int, 3 :: int)},
      sunken_ships = [], successful_hits = [(3, 3)], last_target = Some (3, 3)\<rparr>"
  have s: "select_target 1000 p [0, 0, 2, 3, 2, 1]
     = Ok (((3, 4),
            \<lparr>board = \<lparr>ships = [], width = 10, height = 10\<rparr>, tracker = {(3, 4), (3, 3)},
             sunken_ships = [], successful_hits = [(3, 3)], last_target = Some (3, 4)\<rparr>), [2, 1])"
    unfolding p_def by code_simp
  have h: "is_there_a_hunt p = Inr (True, [(3, 3)])"
    by (simp add: is_there_a_hunt_def p_def)
  then have "(\<exists>there_is_a_hunt. is_there_a_hunt p = Inr (there_is_a_hunt, [(3, 3)]))
       \<or> (distinct (successful_hits p) \<and> (\<forall>s \<in> set (sunken_ships p). finite (cells s))
          \<and> open_hits p = [(3, 3)])"
    by blast
  from single_open_hit_targets_neighbour [OF s this] s h show ?thesis
    unfolding p_def by simp
qed

subsection \<open>The memory\<close>

lemma gather_subset:
  assumes "gather f xs = Inr found" "\<And>x ys. x \<in> set xs \<Longrightarrow> f x = Inr ys \<Longrightarrow> set ys \<subseteq> A"
  shows "set found \<subseteq> A"
  using assms
proof (induction xs arbitrary: found)
  case Nil
  then show ?case by simp
next
  case (Cons x xs)
  from Cons.prems(1) obtain ys zs where
    f: "f x = Inr ys" and g: "gather f xs = Inr zs" and r: "found = ys @ zs"
    by (auto split: sum.splits)
  from Cons.prems(2) [OF _ f] have "set ys \<subseteq> A" by simp
  moreover have "set zs \<subseteq> A"
  proof (rule Cons.IH [OF g])
    fix y ys' assume "y \<in> set xs" "f y = Inr ys'"
    then show "set ys' \<subseteq> A" using Cons.prems(2) [of y ys'] by simp
  qed
  ultimately show ?case by (simp add: r)
qed

lemma get_all_cells_hits:
  "get_all_cells depth self cell except_cell = Inr found
    \<Longrightarrow> set found \<subseteq> set (successful_hits self)"
proof (induction depth arbitrary: cell except_cell found)
  case 0
  then show ?case by simp
next
  case (Suc depth)
  from Suc.prems show ?case
  proof (simp only: get_all_cells.simps, elim gather_subset)
    fix x ys
    assume "(if x \<in> set (successful_hits self) \<and> x \<noteq> except_cell
             then case get_all_cells depth self x cell of
                    Inl e \<Rightarrow> Inl e
                  | Inr new_neighbours \<Rightarrow> Inr (x # new_neighbours)
             else Inr []) = Inr ys"
    then show "set ys \<subseteq> set (successful_hits self)"
      using Suc.IH [of x cell] by (auto split: if_splits sum.splits)
  qed
qed

lemma scan_vertical_picks:
  "scan_vertical cs (m, s, M, e) = (m', s', M', e')
    \<Longrightarrow> (s' = s \<or> (\<exists>c \<in> set cs. s' = Some c)) \<and> (e' = e \<or> (\<exists>c \<in> set cs. e' = Some c))"
proof (induction cs arbitrary: m s M e)
  case Nil
  then show ?case by simp
next
  case (Cons c cs)
  from Cons.prems Cons.IH show ?case
    by (simp add: Let_def split: if_splits) blast+
qed

lemma scan_horizontal_picks:
  "scan_horizontal cs (m, s, M, e) = (m', s', M', e')
    \<Longrightarrow> (s' = s \<or> (\<exists>c \<in> set cs. s' = Some c)) \<and> (e' = e \<or> (\<exists>c \<in> set cs. e' = Some c))"
proof (induction cs arbitrary: m s M e)
  case Nil
  then show ?case by simp
next
  case (Cons c cs)
  from Cons.prems Cons.IH show ?case
    by (simp add: Let_def split: if_splits) blast+
qed

lemma find_start_and_end_picks:
  assumes "find_start_and_end depth self cell = Inr (Some a, Some b)"
  shows "a \<in> insert cell (set (successful_hits self))"
    and "b \<in> insert cell (set (successful_hits self))"
proof -
  from assms obtain nearby where
    n: "get_all_cells depth self cell cell = Inr nearby"
    unfolding find_start_and_end_def by (auto split: sum.splits)
  define found where "found = nearby @ [cell]"
  have f: "set found \<subseteq> insert cell (set (successful_hits self))"
    using get_all_cells_hits [OF n] by (auto simp: found_def)
  have "a \<in> insert cell (set (successful_hits self)) \<and> b \<in> insert cell (set (successful_hits self))"
  proof (cases "length found = 1")
    case True
    with assms n show ?thesis
      unfolding find_start_and_end_def found_def by auto
  next
    case False
    with assms n obtain vertical where
      v: "is_this_ship_vertical found = Inr vertical"
      unfolding find_start_and_end_def found_def Let_def by (auto split: sum.splits)
    show ?thesis
    proof (cases vertical)
      case True
      obtain m s M e where
        sc: "scan_vertical found (height (board self) + 1, None, 0, None) = (m, s, M, e)"
        by (cases "scan_vertical found (height (board self) + 1, None, 0, None)") auto
      with assms n v False True have "s = Some a" "e = Some b"
        unfolding find_start_and_end_def found_def Let_def by simp_all
      with scan_vertical_picks [OF sc] f show ?thesis by auto
    next
      case h: False
      obtain m s M e where
        sc: "scan_horizontal found (width (board self) + 1, None, 0, None) = (m, s, M, e)"
        by (cases "scan_horizontal found (width (board self) + 1, None, 0, None)") auto
      with assms n v False h have "s = Some a" "e = Some b"
        unfolding find_start_and_end_def found_def Let_def by simp_all
      with scan_horizontal_picks [OF sc] f show ?thesis by auto
    qed
  qed
  then show "a \<in> insert cell (set (successful_hits self))"
    and "b \<in> insert cell (set (successful_hits self))" by simp_all
qed

lemma is_it_within_bounds_board:
  "board self' = board self \<Longrightarrow> is_it_within_bounds self' c = is_it_within_bounds self c"
  by (simp add: is_it_within_bounds_def)

lemma recorded_mono:
  "recorded self s \<Longrightarrow> board self' = board self \<Longrightarrow> tracker self \<subseteq> tracker self'
    \<Longrightarrow> recorded self' s"
  unfolding recorded_def using is_it_within_bounds_board [of self' self] by blast

lemma select_target_sound:
  assumes "sound_memory self" "select_target depth self rng = Ok ((target, self'), rng')"
  shows "sound_memory self'" "board self' = board self"
    "sunken_ships self' = sunken_ships self" "tracker self \<subseteq> tracker self'"
proof -
  from assms(2) obtain there_is_a_hunt list_of_hits where
    l: "target_loop depth self (are_there_sunken_ships self) there_is_a_hunt list_of_hits rng
       = Ok (target, rng')"
    and s: "self' = self\<lparr>last_target := Some target, tracker := insert target (tracker self)\<rparr>"
    by (rule select_target_result)
  from target_loop_result [OF l] have w: "is_it_within_bounds self target" by simp
  show b: "board self' = board self" and "sunken_ships self' = sunken_ships self"
    and t: "tracker self \<subseteq> tracker self'"
    by (auto simp: s)
  have "\<forall>ship \<in> set (sunken_ships self'). recorded self' ship"
    using assms(1) recorded_mono [OF _ b t] by (simp add: sound_memory_def s)
  with assms(1) w show "sound_memory self'"
    unfolding sound_memory_def is_it_within_bounds_board [OF b]
    by (auto simp: s)
qed

lemma receive_result_cases:
  assumes "receive_result depth self is_ship_hit has_ship_sunk = Inr self'"
  obtains (miss) "\<not> is_ship_hit" "self' = self"
  | (hit) target where "is_ship_hit" "\<not> has_ship_sunk" "last_target self = Some target"
      "self' = self\<lparr>successful_hits := successful_hits self @ [target]\<rparr>"
  | (sunk) target start stop ship where "is_ship_hit" "has_ship_sunk"
      "last_target self = Some target"
      "find_start_and_end depth (self\<lparr>successful_hits := successful_hits self @ [target]\<rparr>) target
         = Inr (Some start, Some stop)"
      "Ship_init start stop True Unbounded Unbounded = Inr ship"
      "self' = self\<lparr>successful_hits := successful_hits self @ [target],
                     sunken_ships := sunken_ships self @ [ship]\<rparr>"
proof (cases is_ship_hit)
  case False
  with assms have "self' = self" by (simp add: receive_result_def)
  with False show ?thesis by (rule miss)
next
  case True
  with assms obtain target where t: "last_target self = Some target"
    by (cases "last_target self") (simp_all add: receive_result_def)
  show ?thesis
  proof (cases has_ship_sunk)
    case False
    with assms True t have "self' = self\<lparr>successful_hits := successful_hits self @ [target]\<rparr>"
      by (simp add: receive_result_def)
    with True False t show ?thesis by (rule hit)
  next
    case s: True
    from assms True t s obtain start stop ship where
      f: "find_start_and_end depth (self\<lparr>successful_hits := successful_hits self @ [target]\<rparr>)
            target = Inr (Some start, Some stop)"
      and i: "Ship_init start stop True Unbounded Unbounded = Inr ship"
      and e: "self' = self\<lparr>successful_hits := successful_hits self @ [target],
                     sunken_ships := sunken_ships self @ [ship]\<rparr>"
      by (auto simp: receive_result_def Let_def split: sum.splits option.splits)
    with True s t show ?thesis by (rule sunk)
  qed
qed

lemma receive_result_sound:
  assumes "sound_memory self" "receive_result depth self is_ship_hit has_ship_sunk = Inr self'"
  shows "sound_memory self'" "board self' = board self"
    "set (sunken_ships self) \<subseteq> set (sunken_ships self')" "tracker self' = tracker self"
proof -
  from assms(2)
  have "sound_memory self' \<and> board self' = board self
      \<and> set (sunken_ships self) \<subseteq> set (sunken_ships self') \<and> tracker self' = tracker self"
  proof (cases rule: receive_result_cases)
    case miss
    with assms(1) show ?thesis by simp
  next
    case (hit target)
    have b: "board self' = board self" and t: "tracker self' = tracker self"
      by (simp_all add: hit(4))
    from assms(1) hit(3) have "is_it_within_bounds self target" "target \<in> tracker self"
      by (simp_all add: sound_memory_def)
    moreover have "\<forall>ship \<in> set (sunken_ships self'). recorded self' ship"
      using assms(1) recorded_mono [OF _ b] t by (simp add: sound_memory_def hit(4))
    ultimately have "sound_memory self'"
      using assms(1) unfolding sound_memory_def is_it_within_bounds_board [OF b]
      by (auto simp: hit(4))
    with b t show ?thesis by (simp add: hit(4))
  next
    case (sunk target start stop ship)
    have b: "board self' = board self" and t: "tracker self' = tracker self"
      by (simp_all add: sunk(6))
    from assms(1) sunk(3) have g: "is_it_within_bounds self target" "target \<in> tracker self"
      by (simp_all add: sound_memory_def)
    from find_start_and_end_picks [OF sunk(4)]
    have "start \<in> insert target (set (successful_hits self))"
      "stop \<in> insert target (set (successful_hits self))" by simp_all
    with assms(1) g have "start \<in> tracker self" "stop \<in> tracker self"
      "is_it_within_bounds self start" "is_it_within_bounds self stop"
      by (auto simp: sound_memory_def)
    with sunk(5) have "recorded self' ship"
      unfolding recorded_def is_it_within_bounds_board [OF b] t by blast
    moreover have "\<forall>s \<in> set (sunken_ships self). recorded self' s"
      using assms(1) recorded_mono [OF _ b] t by (simp add: sound_memory_def)
    ultimately have "sound_memory self'"
      using assms(1) g unfolding sound_memory_def is_it_within_bounds_board [OF b]
      by (auto simp: sunk(6))
    with b t show ?thesis by (auto simp: sunk(6))
  qed
  then show "sound_memory self'" "board self' = board self"
    "set (sunken_ships self) \<subseteq> set (sunken_ships self')" "tracker self' = tracker self"
    by simp_all
qed

lemma turn_sound:
  assumes "turn self self'" "sound_memory self"
  shows "sound_memory self' \<and> board self' = board self
    \<and> set (sunken_ships self) \<subseteq> set (sunken_ships self') \<and> tracker self \<subseteq> tracker self'"
  using assms
proof (cases rule: turn.cases)
  case (1 depth rng target aimed rng' depth' is_ship_hit has_ship_sunk)
  note s = select_target_sound [OF assms(2) 1(1)]
  note r = receive_result_sound [OF s(1) 1(2)]
  from s r show ?thesis by auto
qed

lemma turns_sound:
  assumes "turns self self'" "sound_memory self"
  shows "sound_memory self' \<and> board self' = board self
    \<and> set (sunken_ships self) \<subseteq> set (sunken_ships self') \<and> tracker self \<subseteq> tracker self'"
  using assms unfolding turns_def
proof (induction rule: rtranclp_induct)
  case base
  then show ?case by simp
next
  case (step y z)
  from step.IH [OF step.prems] turn_sound [OF step.hyps(2)] show ?case by auto
qed

lemma AutomaticPlayer_init_sound: "sound_memory (AutomaticPlayer_init own_board)"
  by (simp add: sound_memory_def AutomaticPlayer_init_def)

subsection \<open>The dead zone\<close>

lemma select_target_dead_zone:
  assumes "select_target depth self rng = Ok ((target, self'), rng')"
    and "ship \<in> set (sunken_ships self)"
  shows "\<not> is_near_cell ship target" "target \<notin> tracker self" "is_it_within_bounds self target"
proof -
  from assms(1) obtain there_is_a_hunt list_of_hits where
    l: "target_loop depth self (are_there_sunken_ships self) there_is_a_hunt list_of_hits rng
       = Ok (target, rng')"
    by (rule select_target_result)
  from assms(2) have "are_there_sunken_ships self"
    by (cases "sunken_ships self") (simp_all add: are_there_sunken_ships_def)
  with target_loop_result [OF l]
  have "\<not> is_close_to_ship self target" and t: "target \<notin> tracker self"
    and w: "is_it_within_bounds self target" by simp_all
  with assms(2) show "\<not> is_near_cell ship target"
    by (auto simp: is_close_to_ship_def list_ex_iff)
  show "target \<notin> tracker self" "is_it_within_bounds self target"
    by (rule t, rule w)
qed

lemma recorded_within_bounds:
  assumes "recorded self ship"
  shows "cells_within_bounds ship"
proof -
  from assms obtain start stop where
    i: "Ship_init start stop True Unbounded Unbounded = Inr ship"
    and w: "is_it_within_bounds self start" "is_it_within_bounds self stop"
    unfolding recorded_def by blast
  note f = Ship_init_Inr [OF i]
  from w f have "1 \<le> x_start ship" "1 \<le> y_start ship"
    by (simp_all add: is_it_within_bounds_def)
  then show ?thesis
    unfolding cells_within_bounds_def inside_board_def Ship_init_cells [OF i]
    using f by auto
qed

lemma recorded_lone_cell:
  assumes "recorded self ship" "c \<in> cells ship" "\<not> (\<exists>d \<in> cells ship. adjacent d c)"
  shows "c \<in> tracker self"
proof -
  from assms(1) obtain start stop where
    i: "Ship_init start stop True Unbounded Unbounded = Inr ship"
    and t: "start \<in> tracker self"
    unfolding recorded_def by blast
  note f = Ship_init_Inr [OF i]
  note r = Ship_init_cells [OF i]
  obtain a b where c: "c = (a, b)" by (cases c)
  from assms(2) have m: "x_start ship \<le> a" "a \<le> x_end ship" "y_start ship \<le> b" "b \<le> y_end ship"
    unfolding r c by simp_all
  have x: "x_start ship = x_end ship"
  proof (rule ccontr)
    assume "x_start ship \<noteq> x_end ship"
    with m have "(a + 1, b) \<in> cells ship \<or> (a - 1, b) \<in> cells ship"
      unfolding r by auto
    moreover have "adjacent (a + 1, b) (a, b)" "adjacent (a - 1, b) (a, b)"
      by (simp_all add: adjacent_def)
    ultimately show False using assms(3) unfolding c by blast
  qed
  have y: "y_start ship = y_end ship"
  proof (rule ccontr)
    assume "y_start ship \<noteq> y_end ship"
    with m have "(a, b + 1) \<in> cells ship \<or> (a, b - 1) \<in> cells ship"
      unfolding r by auto
    moreover have "adjacent (a, b + 1) (a, b)" "adjacent (a, b - 1) (a, b)"
      by (simp_all add: adjacent_def)
    ultimately show False using assms(3) unfolding c by blast
  qed
  from x y f have "fst start = x_start ship" "snd start = y_start ship"
    by (simp_all add: min_def max_def split: if_splits)
  moreover from x y m have "a = x_start ship" "b = y_start ship" by simp_all
  ultimately have "c = start" unfolding c by (cases start) simp
  with t show ?thesis by simp
qed

text \<open>
  Claim C5. Take a memory that play has built (any number of turns from a new
  \<open>AutomaticPlayer\<close>) and a sunken ship recorded in it. After any number of further
  turns, a cell returned by \<open>select_target\<close> is not within one grid-step of any cell
  of that ship, diagonals included (nor is it a cell of the ship).
\<close>

theorem sunken_ship_dead_zone:
  assumes "turns (AutomaticPlayer_init own_board) self"
    and "ship \<in> set (sunken_ships self)"
    and "turns self later"
    and "select_target depth later rng = Ok ((target, later'), rng')"
  shows "\<forall>c \<in> cells ship. \<not> (\<bar>fst target - fst c\<bar> \<le> 1 \<and> \<bar>snd target - snd c\<bar> \<le> 1)"
proof
  fix c assume c: "c \<in> cells ship"
  have s: "sound_memory self"
    using turns_sound [OF assms(1) AutomaticPlayer_init_sound] by simp
  note l = turns_sound [OF assms(3) s]
  from l assms(2) have m: "ship \<in> set (sunken_ships later)" by blast
  with l have r: "recorded later ship" by (simp add: sound_memory_def)
  note z = select_target_dead_zone [OF assms(4) m]
  from z(3) have p: "1 \<le> fst target" "1 \<le> snd target"
    by (simp_all add: is_it_within_bounds_def)
  from z(1) have n: "\<not> (\<exists>d \<in> cells ship. adjacent d target)"
    unfolding is_near_cell_iff [OF recorded_within_bounds [OF r] p] .
  show "\<not> (\<bar>fst target - fst c\<bar> \<le> 1 \<and> \<bar>snd target - snd c\<bar> \<le> 1)"
  proof
    assume a: "\<bar>fst target - fst c\<bar> \<le> 1 \<and> \<bar>snd target - snd c\<bar> \<le> 1"
    show False
    proof (cases "c = target")
      case True
      with c n recorded_lone_cell [OF r] have "target \<in> tracker later" by blast
      with z(2) show False by simp
    next
      case False
      with a have "adjacent c target"
        by (simp add: adjacent_def abs_minus_commute)
      with c n show False by blast
    qed
  qed
qed

theorem sunken_ship_dead_zone_witness:
  "turns (AutomaticPlayer_init \<lparr>ships = [], width = 10, height = 10\<rparr>)
     \<lparr>board = \<lparr>ships = [], width = 10, height = 10\<rparr>, tracker = {(3, 3)},
      sunken_ships = [\<lparr>x_start = 3, y_start = 3, x_end = 3, y_end = 3, cells = {(3, 3)},
                       damaged_cells = {}, board_width = Unbounded, board_height = Unbounded\<rparr>],
      successful_hits = [(3, 3)], last_target = Some (3, 3)\<rparr>
   \<and> select_target 10
     \<lparr>board = \<lparr>ships = [], width = 10, height = 10\<rparr>, tracker = {(3, 3)},
      sunken_ships = [\<lparr>x_start = 3, y_start = 3, x_end = 3, y_end = 3, cells = {(3, 3)},
                       damaged_cells = {}, board_width = Unbounded, board_height = Unbounded\<rparr>],
      successful_hits = [(3, 3)], last_target = Some (3, 3)\<rparr> [3, 2, 5, 5]
     = Ok (((6, 6),
            \<lparr>board = \<lparr>ships = [], width = 10, height = 10\<rparr>, tracker = {(6, 6), (3, 3)},
             sunken_ships = [\<lparr>x_start = 3, y_start = 3, x_end = 3, y_end = 3, cells = {(3, 3)},
                       damaged_cells = {}, board_width = Unbounded, board_height = Unbounded\<rparr>],
             successful_hits = [(3, 3)], last_target = Some (6, 6)\<rparr>), [])
   \<and> \<not> (\<bar>fst (6 :: int, 6 :: int) - fst (3 :: int, 3 :: int)\<bar> \<le> 1
          \<and> \<bar>snd (6 :: int, 6 :: int) - snd (3 :: int, 3 :: int)\<bar> \<le> 1)"
proof -
  define b where "b = \<lparr>ships = [], width = 10, height = 10\<rparr>"
  define s where "s = \<lparr>x_start = 3, y_start = 3, x_end = 3, y_end = 3, cells = {(3 :: int, 3 :: int)},
                       damaged_cells = {}, board_width = Unbounded, board_height = Unbounded\<rparr>"
  define aimed where "aimed = \<lparr>board = b, tracker = {(3 :: int, 3 :: int)}, sunken_ships = [],
      successful_hits = [], last_target = Some (3, 3)\<rparr>"
  define p where "p = \<lparr>board = b, tracker = {(3 :: int, 3 :: int)}, sunken_ships = [s],
      successful_hits = [(3, 3)], last_target = Some (3, 3)\<rparr>"
  define p' where "p' = \<lparr>board = b, tracker = {(6 :: int, 6 :: int), (3, 3)}, sunken_ships = [s],
      successful_hits = [(3, 3)], last_target = Some (6, 6)\<rparr>"
  have one: "select_target 10 (AutomaticPlayer_init b) [2, 2] = Ok (((3, 3), aimed), [])"
    unfolding b_def aimed_def by code_simp
  have two: "receive_result 10 aimed True True = Inr p"
    unfolding b_def aimed_def p_def s_def by code_simp
  have "turn (AutomaticPlayer_init b) p"
    using one two by (rule turn.intros)
  then have t: "turns (AutomaticPlayer_init b) p"
    unfolding turns_def by (rule r_into_rtranclp)
  have r: "turns p p"
    unfolding turns_def by (rule rtranclp.rtrancl_refl)
  have m: "s \<in> set (sunken_ships p)"
    by (simp add: p_def)
  have three: "select_target 10 p [3, 2, 5, 5] = Ok (((6, 6), p'), [])"
    unfolding b_def p_def p'_def s_def by code_simp
  have "(3, 3) \<in> cells s" by (simp add: s_def)
  with sunken_ship_dead_zone [OF t m r three]
  have "\<not> (\<bar>fst (6 :: int, 6 :: int) - fst (3 :: int, 3 :: int)\<bar> \<le> 1
          \<and> \<bar>snd (6 :: int, 6 :: int) - snd (3 :: int, 3 :: int)\<bar> \<le> 1)"
    by blast
  with t three show ?thesis
    unfolding b_def p_def p'_def s_def by (intro conjI)
qed
subsection \<open>Runs of hits\<close>

text \<open>
  What \<open>get_all_cells\<close> and \<open>find_start_and_end\<close> compute on a run of recorded hits:
  the search walks from the cell to both ends of the run, and the scan returns the
  two ends.
\<close>

lemma filter_optional:
  "filter P (if b then [n] else []) = (if b \<and> P n then [n] else [])"
  by simp

lemma gather_filter:
  assumes "\<And>x. x \<in> set xs \<Longrightarrow> \<not> P x \<Longrightarrow> f x = Inr []"
  shows "gather f xs = gather f (filter P xs)"
  using assms
proof (induction xs)
  case Nil
  show ?case by simp
next
  case (Cons x xs)
  have r: "gather f xs = gather f (filter P xs)"
    by (rule Cons.IH) (simp add: Cons.prems)
  show ?case
  proof (cases "P x")
    case True
    then show ?thesis by (simp add: r split: sum.splits)
  next
    case False
    then have "f x = Inr []" using Cons.prems by simp
    with False show ?thesis by (simp add: r split: sum.splits)
  qed
qed

lemma get_all_cells_Suc:
  "get_all_cells (Suc depth) self cell except_cell =
     gather (\<lambda>neighbour.
               if neighbour \<in> set (successful_hits self) \<and> neighbour \<noteq> except_cell then
                 (case get_all_cells depth self neighbour cell of
                    Inl e \<Rightarrow> Inl e
                  | Inr new_neighbours \<Rightarrow> Inr (neighbour # new_neighbours))
               else Inr [])
            (filter (\<lambda>n. n \<in> set (successful_hits self)) (get_neighbours_player self cell False))"
  unfolding get_all_cells.simps by (rule gather_filter) simp

lemma vertical_run_neighbours:
  assumes r: "vertical_run self x lo hi" and y: "lo \<le> y" "y \<le> hi"
  shows "filter (\<lambda>n. n \<in> set (successful_hits self)) (get_neighbours_player self (x, y) False)
       = (if y < hi then [(x, y + 1)] else []) @ (if lo < y then [(x, y - 1)] else [])"
proof -
  let ?H = "set (successful_hits self)"
  have c: "(x, y) \<in> {x} \<times> {lo..hi}" using y by simp
  have out: "n \<notin> ?H" if "adjacent n (x, y)" "n \<notin> {x} \<times> {lo..hi}" for n
    using r that c unfolding vertical_run_def by blast
  have inn: "n \<in> ?H" if "n \<in> {x} \<times> {lo..hi}" for n
    using r that unfolding vertical_run_def by blast
  from r have b: "1 \<le> lo" "hi \<le> height (board self)"
    by (simp_all add: vertical_run_def)
  have right: "(x + 1, y) \<notin> ?H" by (rule out) (simp_all add: adjacent_def)
  have left: "(x - 1, y) \<notin> ?H" by (rule out) (simp_all add: adjacent_def)
  have tr: "(x + 1, y - 1) \<notin> ?H" by (rule out) (simp_all add: adjacent_def)
  have tl: "(x - 1, y - 1) \<notin> ?H" by (rule out) (simp_all add: adjacent_def)
  have br: "(x + 1, y + 1) \<notin> ?H" by (rule out) (simp_all add: adjacent_def)
  have bl: "(x - 1, y + 1) \<notin> ?H" by (rule out) (simp_all add: adjacent_def)
  have bottom: "y \<le> height (board self) - 1 \<and> (x, y + 1) \<in> ?H \<longleftrightarrow> y < hi"
  proof (cases "y < hi")
    case True
    then have "(x, y + 1) \<in> ?H" using y by (intro inn) simp
    with True b show ?thesis by simp
  next
    case False
    have "(x, y + 1) \<notin> ?H" using False by (intro out) (simp_all add: adjacent_def)
    with False show ?thesis by simp
  qed
  have top: "2 \<le> y \<and> (x, y - 1) \<in> ?H \<longleftrightarrow> lo < y"
  proof (cases "lo < y")
    case True
    then have "(x, y - 1) \<in> ?H" using y by (intro inn) simp
    with True b show ?thesis by simp
  next
    case False
    have "(x, y - 1) \<notin> ?H" using False by (intro out) (simp_all add: adjacent_def)
    with False show ?thesis by simp
  qed
  show ?thesis
    unfolding get_neighbours_player_def Let_def fst_conv snd_conv
    by (simp only: filter_append filter_optional right left tr tl br bl bottom top simp_thms
        if_False if_True append_Nil append_Nil2 filter.simps conj_assoc)
qed

lemma get_all_cells_down:
  assumes r: "vertical_run self x lo hi"
  shows "lo \<le> y \<Longrightarrow> y \<le> hi \<Longrightarrow> get_all_cells depth self (x, y) (x, y - 1) = Inr l
    \<Longrightarrow> l = map (Pair x) [y + 1..hi]"
proof (induction depth arbitrary: y l)
  case 0
  then show ?case by simp
next
  case (Suc depth)
  note n = vertical_run_neighbours [OF r Suc.prems(1,2)]
  show ?case
  proof (cases "y < hi")
    case True
    then have h: "(x, y + 1) \<in> set (successful_hits self)"
      using r Suc.prems(1) unfolding vertical_run_def by auto
    from Suc.prems(3) True h obtain new where
      g: "get_all_cells depth self (x, y + 1) (x, y) = Inr new" and l: "l = (x, y + 1) # new"
      unfolding get_all_cells_Suc n by (auto split: sum.splits if_splits)
    from True Suc.prems(1) have "lo \<le> y + 1" "y + 1 \<le> hi" by simp_all
    from Suc.IH [OF this] g have "new = map (Pair x) [y + 1 + 1..hi]" by simp
    moreover have "[y + 1..hi] = (y + 1) # [y + 1 + 1..hi]"
      using True by (simp add: upto_rec1)
    ultimately show ?thesis by (simp add: l)
  next
    case False
    with Suc.prems(3) have "l = []"
      unfolding get_all_cells_Suc n by (auto split: sum.splits if_splits)
    with False show ?thesis by simp
  qed
qed

lemma get_all_cells_up:
  assumes r: "vertical_run self x lo hi"
  shows "lo \<le> y \<Longrightarrow> y \<le> hi \<Longrightarrow> get_all_cells depth self (x, y) (x, y + 1) = Inr l
    \<Longrightarrow> l = map (Pair x) (rev [lo..y - 1])"
proof (induction depth arbitrary: y l)
  case 0
  then show ?case by simp
next
  case (Suc depth)
  note n = vertical_run_neighbours [OF r Suc.prems(1,2)]
  show ?case
  proof (cases "lo < y")
    case True
    then have h: "(x, y - 1) \<in> set (successful_hits self)"
      using r Suc.prems(2) unfolding vertical_run_def by auto
    from Suc.prems(3) True h obtain new where
      g: "get_all_cells depth self (x, y - 1) (x, y) = Inr new" and l: "l = (x, y - 1) # new"
      unfolding get_all_cells_Suc n by (auto split: sum.splits if_splits)
    from True Suc.prems(2) have "lo \<le> y - 1" "y - 1 \<le> hi" by simp_all
    from Suc.IH [OF this] g have "new = map (Pair x) (rev [lo..y - 1 - 1])" by simp
    moreover have "[lo..y - 1] = [lo..y - 1 - 1] @ [y - 1]"
      using True by (simp add: upto_rec2)
    ultimately show ?thesis by (simp add: l)
  next
    case False
    with Suc.prems(3) have "l = []"
      unfolding get_all_cells_Suc n by (auto split: sum.splits if_splits)
    with False show ?thesis by simp
  qed
qed

lemma get_all_cells_column:
  assumes r: "vertical_run self x lo hi" and y: "lo \<le> y" "y \<le> hi"
    and g: "get_all_cells depth self (x, y) (x, y) = Inr l"
  shows "l = map (Pair x) [y + 1..hi] @ map (Pair x) (rev [lo..y - 1])"
proof (cases depth)
  case 0
  with g show ?thesis by simp
next
  case (Suc d)
  note n = vertical_run_neighbours [OF r y]
  have hd: "(x, y + 1) \<in> set (successful_hits self)" if "y < hi"
    using r y that unfolding vertical_run_def by auto
  have hu: "(x, y - 1) \<in> set (successful_hits self)" if "lo < y"
    using r y that unfolding vertical_run_def by auto
  define down where "down = (if y < hi then get_all_cells d self (x, y + 1) (x, y) else Inr [])"
  define up where "up = (if lo < y then get_all_cells d self (x, y - 1) (x, y) else Inr [])"
  from g hd hu obtain a b where
    a: "down = Inr a" and b: "up = Inr b"
    and l: "l = (if y < hi then (x, y + 1) # a else []) @ (if lo < y then (x, y - 1) # b else [])"
    unfolding Suc get_all_cells_Suc n down_def up_def
    by (auto split: sum.splits if_splits)
  have "(if y < hi then (x, y + 1) # a else []) = map (Pair x) [y + 1..hi]"
  proof (cases "y < hi")
    case True
    with a have "get_all_cells d self (x, y + 1) (x, y + 1 - 1) = Inr a"
      by (simp add: down_def)
    from get_all_cells_down [OF r _ _ this] True y
    have "a = map (Pair x) [y + 1 + 1..hi]" by simp
    moreover have "[y + 1..hi] = (y + 1) # [y + 1 + 1..hi]"
      using True by (simp add: upto_rec1)
    ultimately show ?thesis using True by simp
  next
    case False
    then show ?thesis by simp
  qed
  moreover have "(if lo < y then (x, y - 1) # b else []) = map (Pair x) (rev [lo..y - 1])"
  proof (cases "lo < y")
    case True
    with b have "get_all_cells d self (x, y - 1) (x, y - 1 + 1) = Inr b"
      by (simp add: up_def)
    from get_all_cells_up [OF r _ _ this] True y
    have "b = map (Pair x) (rev [lo..y - 1 - 1])" by simp
    moreover have "[lo..y - 1] = [lo..y - 1 - 1] @ [y - 1]"
      using True by (simp add: upto_rec2)
    ultimately show ?thesis using True by simp
  next
    case False
    then show ?thesis by simp
  qed
  ultimately show ?thesis by (simp add: l)
qed

lemma scan_vertical_bounds:
  assumes "\<forall>c \<in> set cs. fst c = x" "scan_vertical cs (m, s, M, e) = (m', s', M', e')"
  shows "m' \<le> m \<and> (\<forall>c \<in> set cs. m' \<le> snd c) \<and> (m' = m \<or> m' \<in> snd ` set cs)
       \<and> (if m' < m then s' = Some (x, m') else s' = s)
       \<and> M \<le> M' \<and> (\<forall>c \<in> set cs. snd c \<le> M') \<and> (M' = M \<or> M' \<in> snd ` set cs)
       \<and> (if M < M' then e' = Some (x, M') else e' = e)"
  using assms
proof (induction cs arbitrary: m s M e)
  case Nil
  then show ?case by simp
next
  case (Cons c cs)
  obtain b where c: "c = (x, b)" using Cons.prems(1) by (cases c) simp
  define m1 where "m1 = (if m > b then b else m)"
  define s1 where "s1 = (if m > b then Some c else s)"
  define M1 where "M1 = (if M < b then b else M)"
  define e1 where "e1 = (if M < b then Some c else e)"
  from Cons.prems(2) have sc: "scan_vertical cs (m1, s1, M1, e1) = (m', s', M', e')"
    by (simp add: c m1_def s1_def M1_def e1_def split: if_splits)
  from Cons.prems(1) have "\<forall>c \<in> set cs. fst c = x" by simp
  note ih = Cons.IH [OF this sc]
  have low: "m' \<le> m \<and> (\<forall>c \<in> set (c # cs). m' \<le> snd c) \<and> (m' = m \<or> m' \<in> snd ` set (c # cs))
       \<and> (if m' < m then s' = Some (x, m') else s' = s)"
  proof (cases "m > b")
    case True
    then have "m1 = b" "s1 = Some (x, b)" by (simp_all add: m1_def s1_def c)
    with ih True show ?thesis by (auto simp: c split: if_splits)
  next
    case False
    then have "m1 = m" "s1 = s" by (simp_all add: m1_def s1_def)
    with ih False show ?thesis by (auto simp: c split: if_splits)
  qed
  have high: "M \<le> M' \<and> (\<forall>c \<in> set (c # cs). snd c \<le> M') \<and> (M' = M \<or> M' \<in> snd ` set (c # cs))
       \<and> (if M < M' then e' = Some (x, M') else e' = e)"
  proof (cases "M < b")
    case True
    then have "M1 = b" "e1 = Some (x, b)" by (simp_all add: M1_def e1_def c)
    with ih True show ?thesis by (auto simp: c split: if_splits)
  next
    case False
    then have "M1 = M" "e1 = e" by (simp_all add: M1_def e1_def)
    with ih False show ?thesis by (auto simp: c split: if_splits)
  qed
  from low high show ?case by blast
qed

lemma scan_vertical_column:
  assumes "set cs = {x} \<times> {lo..hi}" "lo \<le> hi" "1 \<le> lo" "hi \<le> h"
    and "scan_vertical cs (h + 1, None, 0, None) = (m', s', M', e')"
  shows "s' = Some (x, lo)" "e' = Some (x, hi)"
proof -
  have f: "\<forall>c \<in> set cs. fst c = x" using assms(1) by auto
  have i: "snd ` set cs = {lo..hi}" using assms(1) by auto
  note b = scan_vertical_bounds [OF f assms(5), unfolded i]
  have m: "(x, lo) \<in> set cs" "(x, hi) \<in> set cs" using assms(1,2) by simp_all
  from b m have "m' \<le> snd (x, lo)" "snd (x, hi) \<le> M'" by blast+
  then have "m' \<le> lo" "hi \<le> M'" by simp_all
  moreover from b assms have "m' \<in> {lo..hi}" "M' \<in> {lo..hi}" by auto
  ultimately have "m' = lo" "M' = hi" by simp_all
  with b assms show "s' = Some (x, lo)" "e' = Some (x, hi)" by simp_all
qed

lemma column_cells:
  fixes lo y hi :: int
  assumes "lo \<le> y" "y \<le> hi"
  shows "set (map (Pair x) [y + 1..hi] @ map (Pair x) (rev [lo..y - 1]) @ [(x, y)]) = {x} \<times> {lo..hi}"
proof -
  have p: "set (map (Pair x) zs) = {x} \<times> set zs" for zs :: "int list"
    by auto
  have "{y + 1..hi} \<union> ({lo..y - 1} \<union> {y}) = {lo..hi}"
    using assms by auto
  then have "{x} \<times> {y + 1..hi} \<union> ({x} \<times> {lo..y - 1} \<union> {(x, y)}) = {x} \<times> {lo..hi}"
    by auto
  then show ?thesis
    unfolding set_append p set_rev set_upto by simp
qed

lemma find_start_and_end_unfold:
  assumes "get_all_cells depth self cell cell = Inr nearby"
  shows "find_start_and_end depth self cell =
     (if length (nearby @ [cell]) = 1 then Inr (Some cell, Some cell)
      else (case is_this_ship_vertical (nearby @ [cell]) of
              Inl e \<Rightarrow> Inl e
            | Inr vertical \<Rightarrow>
                if vertical then
                  Inr (fst (snd (scan_vertical (nearby @ [cell]) (height (board self) + 1, None, 0, None))),
                       snd (snd (snd (scan_vertical (nearby @ [cell]) (height (board self) + 1, None, 0, None)))))
                else
                  Inr (fst (snd (scan_horizontal (nearby @ [cell]) (width (board self) + 1, None, 0, None))),
                       snd (snd (snd (scan_horizontal (nearby @ [cell]) (width (board self) + 1, None, 0, None)))))))"
  unfolding find_start_and_end_def assms Let_def
  by (simp add: case_prod_beta split: sum.splits)

lemma find_start_and_end_column:
  assumes r: "vertical_run self x lo hi" and y: "lo \<le> y" "y \<le> hi"
    and f: "find_start_and_end depth self (x, y) = Inr found"
  shows "found = (Some (x, lo), Some (x, hi))"
proof -
  from f obtain nearby where
    g: "get_all_cells depth self (x, y) (x, y) = Inr nearby"
  proof (cases "get_all_cells depth self (x, y) (x, y)")
    case (Inl e)
    then have "find_start_and_end depth self (x, y) = Inl e"
      unfolding find_start_and_end_def by (simp only: sum.case)
    with f show ?thesis by simp
  next
    case (Inr nearby)
    then show ?thesis by (rule that)
  qed
  define cs where "cs = nearby @ [(x, y)]"
  note u = f [unfolded find_start_and_end_unfold [OF g] cs_def [symmetric]]
  have n: "nearby = map (Pair x) [y + 1..hi] @ map (Pair x) (rev [lo..y - 1])"
    using get_all_cells_column [OF r y g] .
  have s: "set cs = {x} \<times> {lo..hi}"
    unfolding cs_def n append_assoc by (rule column_cells [OF y])
  from r have b: "1 \<le> lo" "hi \<le> height (board self)"
    by (simp_all add: vertical_run_def)
  show ?thesis
  proof (cases "length cs = 1")
    case True
    then have "nearby = []" by (simp add: cs_def)
    then have "[y + 1..hi] = []" "[lo..y - 1] = []"
      unfolding n by simp_all
    then have "lo = y" "hi = y" using y by simp_all
    moreover from u True have "found = (Some (x, y), Some (x, y))" by simp
    ultimately show ?thesis by simp
  next
    case False
    then obtain a n' where "nearby = a # n'"
      by (cases nearby) (simp_all add: cs_def)
    moreover obtain b rest where "n' @ [(x, y)] = b # rest"
      by (cases n') simp_all
    ultimately have c: "cs = a # b # rest"
      by (simp add: cs_def)
    have "a \<in> set cs" "b \<in> set cs" by (simp_all add: c)
    then have "fst a = x" "fst b = x" unfolding s by auto
    then have v: "is_this_ship_vertical cs = Inr True"
      by (simp add: is_this_ship_vertical_def c)
    obtain m' s' M' e' where
      sc: "scan_vertical cs (height (board self) + 1, None, 0, None) = (m', s', M', e')"
      by (cases "scan_vertical cs (height (board self) + 1, None, 0, None)") auto
    from y have "lo \<le> hi" by simp
    note p = scan_vertical_column [OF s this b sc]
    from u False have "found = (s', e')"
      unfolding v sc by simp
    with p show ?thesis by simp
  qed
qed

lemma horizontal_run_neighbours:
  assumes r: "horizontal_run self y lo hi" and x: "lo \<le> x" "x \<le> hi"
  shows "filter (\<lambda>n. n \<in> set (successful_hits self)) (get_neighbours_player self (x, y) False)
       = (if x < hi then [(x + 1, y)] else []) @ (if lo < x then [(x - 1, y)] else [])"
proof -
  let ?H = "set (successful_hits self)"
  have c: "(x, y) \<in> {lo..hi} \<times> {y}" using x by simp
  have out: "n \<notin> ?H" if "adjacent n (x, y)" "n \<notin> {lo..hi} \<times> {y}" for n
    using r that c unfolding horizontal_run_def by blast
  have inn: "n \<in> ?H" if "n \<in> {lo..hi} \<times> {y}" for n
    using r that unfolding horizontal_run_def by blast
  from r have b: "1 \<le> lo" "hi \<le> width (board self)"
    by (simp_all add: horizontal_run_def)
  have bottom: "(x, y + 1) \<notin> ?H" by (rule out) (simp_all add: adjacent_def)
  have top: "(x, y - 1) \<notin> ?H" by (rule out) (simp_all add: adjacent_def)
  have tr: "(x + 1, y - 1) \<notin> ?H" by (rule out) (simp_all add: adjacent_def)
  have tl: "(x - 1, y - 1) \<notin> ?H" by (rule out) (simp_all add: adjacent_def)
  have br: "(x + 1, y + 1) \<notin> ?H" by (rule out) (simp_all add: adjacent_def)
  have bl: "(x - 1, y + 1) \<notin> ?H" by (rule out) (simp_all add: adjacent_def)
  have right: "x \<le> width (board self) - 1 \<and> (x + 1, y) \<in> ?H \<longleftrightarrow> x < hi"
  proof (cases "x < hi")
    case True
    then have "(x + 1, y) \<in> ?H" using x by (intro inn) simp
    with True b show ?thesis by simp
  next
    case False
    have "(x + 1, y) \<notin> ?H" using False by (intro out) (simp_all add: adjacent_def)
    with False show ?thesis by simp
  qed
  have left: "2 \<le> x \<and> (x - 1, y) \<in> ?H \<longleftrightarrow> lo < x"
  proof (cases "lo < x")
    case True
    then have "(x - 1, y) \<in> ?H" using x by (intro inn) simp
    with True b show ?thesis by simp
  next
    case False
    have "(x - 1, y) \<notin> ?H" using False by (intro out) (simp_all add: adjacent_def)
    with False show ?thesis by simp
  qed
  show ?thesis
    unfolding get_neighbours_player_def Let_def fst_conv snd_conv
    by (simp only: filter_append filter_optional right left tr tl br bl bottom top simp_thms
        if_False if_True append_Nil append_Nil2 filter.simps conj_assoc)
qed

lemma get_all_cells_right:
  assumes r: "horizontal_run self y lo hi"
  shows "lo \<le> x \<Longrightarrow> x \<le> hi \<Longrightarrow> get_all_cells depth self (x, y) (x - 1, y) = Inr l
    \<Longrightarrow> l = map (\<lambda>k. (k, y)) [x + 1..hi]"
proof (induction depth arbitrary: x l)
  case 0
  then show ?case by simp
next
  case (Suc depth)
  note n = horizontal_run_neighbours [OF r Suc.prems(1,2)]
  show ?case
  proof (cases "x < hi")
    case True
    then have h: "(x + 1, y) \<in> set (successful_hits self)"
      using r Suc.prems(1) unfolding horizontal_run_def by auto
    from Suc.prems(3) True h obtain new where
      g: "get_all_cells depth self (x + 1, y) (x, y) = Inr new" and l: "l = (x + 1, y) # new"
      unfolding get_all_cells_Suc n by (auto split: sum.splits if_splits)
    from True Suc.prems(1) have "lo \<le> x + 1" "x + 1 \<le> hi" by simp_all
    from Suc.IH [OF this] g have "new = map (\<lambda>k. (k, y)) [x + 1 + 1..hi]" by simp
    moreover have "[x + 1..hi] = (x + 1) # [x + 1 + 1..hi]"
      using True by (simp add: upto_rec1)
    ultimately show ?thesis by (simp add: l)
  next
    case False
    with Suc.prems(3) have "l = []"
      unfolding get_all_cells_Suc n by (auto split: sum.splits if_splits)
    with False show ?thesis by simp
  qed
qed

lemma get_all_cells_left:
  assumes r: "horizontal_run self y lo hi"
  shows "lo \<le> x \<Longrightarrow> x \<le> hi \<Longrightarrow> get_all_cells depth self (x, y) (x + 1, y) = Inr l
    \<Longrightarrow> l = map (\<lambda>k. (k, y)) (rev [lo..x - 1])"
proof (induction depth arbitrary: x l)
  case 0
  then show ?case by simp
next
  case (Suc depth)
  note n = horizontal_run_neighbours [OF r Suc.prems(1,2)]
  show ?case
  proof (cases "lo < x")
    case True
    then have h: "(x - 1, y) \<in> set (successful_hits self)"
      using r Suc.prems(2) unfolding horizontal_run_def by auto
    from Suc.prems(3) True h obtain new where
      g: "get_all_cells depth self (x - 1, y) (x, y) = Inr new" and l: "l = (x - 1, y) # new"
      unfolding get_all_cells_Suc n by (auto split: sum.splits if_splits)
    from True Suc.prems(2) have "lo \<le> x - 1" "x - 1 \<le> hi" by simp_all
    from Suc.IH [OF this] g have "new = map (\<lambda>k. (k, y)) (rev [lo..x - 1 - 1])" by simp
    moreover have "[lo..x - 1] = [lo..x - 1 - 1] @ [x - 1]"
      using True by (simp add: upto_rec2)
    ultimately show ?thesis by (simp add: l)
  next
    case False
    with Suc.prems(3) have "l = []"
      unfolding get_all_cells_Suc n by (auto split: sum.splits if_splits)
    with False show ?thesis by simp
  qed
qed

lemma get_all_cells_row:
  assumes r: "horizontal_run self y lo hi" and x: "lo \<le> x" "x \<le> hi"
    and g: "get_all_cells depth self (x, y) (x, y) = Inr l"
  shows "l = map (\<lambda>k. (k, y)) [x + 1..hi] @ map (\<lambda>k. (k, y)) (rev [lo..x - 1])"
proof (cases depth)
  case 0
  with g show ?thesis by simp
next
  case (Suc d)
  note n = horizontal_run_neighbours [OF r x]
  have hr: "(x + 1, y) \<in> set (successful_hits self)" if "x < hi"
    using r x that unfolding horizontal_run_def by auto
  have hl: "(x - 1, y) \<in> set (successful_hits self)" if "lo < x"
    using r x that unfolding horizontal_run_def by auto
  define right where "right = (if x < hi then get_all_cells d self (x + 1, y) (x, y) else Inr [])"
  define left where "left = (if lo < x then get_all_cells d self (x - 1, y) (x, y) else Inr [])"
  from g hr hl obtain a b where
    a: "right = Inr a" and b: "left = Inr b"
    and l: "l = (if x < hi then (x + 1, y) # a else []) @ (if lo < x then (x - 1, y) # b else [])"
    unfolding Suc get_all_cells_Suc n right_def left_def
    by (auto split: sum.splits if_splits)
  have "(if x < hi then (x + 1, y) # a else []) = map (\<lambda>k. (k, y)) [x + 1..hi]"
  proof (cases "x < hi")
    case True
    with a have "get_all_cells d self (x + 1, y) (x + 1 - 1, y) = Inr a"
      by (simp add: right_def)
    from get_all_cells_right [OF r _ _ this] True x
    have "a = map (\<lambda>k. (k, y)) [x + 1 + 1..hi]" by simp
    moreover have "[x + 1..hi] = (x + 1) # [x + 1 + 1..hi]"
      using True by (simp add: upto_rec1)
    ultimately show ?thesis using True by simp
  next
    case False
    then show ?thesis by simp
  qed
  moreover have "(if lo < x then (x - 1, y) # b else []) = map (\<lambda>k. (k, y)) (rev [lo..x - 1])"
  proof (cases "lo < x")
    case True
    with b have "get_all_cells d self (x - 1, y) (x - 1 + 1, y) = Inr b"
      by (simp add: left_def)
    from get_all_cells_left [OF r _ _ this] True x
    have "b = map (\<lambda>k. (k, y)) (rev [lo..x - 1 - 1])" by simp
    moreover have "[lo..x - 1] = [lo..x - 1 - 1] @ [x - 1]"
      using True by (simp add: upto_rec2)
    ultimately show ?thesis using True by simp
  next
    case False
    then show ?thesis by simp
  qed
  ultimately show ?thesis by (simp add: l)
qed

lemma scan_horizontal_bounds:
  assumes "\<forall>c \<in> set cs. snd c = y" "scan_horizontal cs (m, s, M, e) = (m', s', M', e')"
  shows "m' \<le> m \<and> (\<forall>c \<in> set cs. m' \<le> fst c) \<and> (m' = m \<or> m' \<in> fst ` set cs)
       \<and> (if m' < m then s' = Some (m', y) else s' = s)
       \<and> M \<le> M' \<and> (\<forall>c \<in> set cs. fst c \<le> M') \<and> (M' = M \<or> M' \<in> fst ` set cs)
       \<and> (if M < M' then e' = Some (M', y) else e' = e)"
  using assms
proof (induction cs arbitrary: m s M e)
  case Nil
  then show ?case by simp
next
  case (Cons c cs)
  obtain a where c: "c = (a, y)" using Cons.prems(1) by (cases c) simp
  define m1 where "m1 = (if m > a then a else m)"
  define s1 where "s1 = (if m > a then Some c else s)"
  define M1 where "M1 = (if M < a then a else M)"
  define e1 where "e1 = (if M < a then Some c else e)"
  from Cons.prems(2) have sc: "scan_horizontal cs (m1, s1, M1, e1) = (m', s', M', e')"
    by (simp add: c m1_def s1_def M1_def e1_def split: if_splits)
  from Cons.prems(1) have "\<forall>c \<in> set cs. snd c = y" by simp
  note ih = Cons.IH [OF this sc]
  have low: "m' \<le> m \<and> (\<forall>c \<in> set (c # cs). m' \<le> fst c) \<and> (m' = m \<or> m' \<in> fst ` set (c # cs))
       \<and> (if m' < m then s' = Some (m', y) else s' = s)"
  proof (cases "m > a")
    case True
    then have "m1 = a" "s1 = Some (a, y)" by (simp_all add: m1_def s1_def c)
    with ih True show ?thesis by (auto simp: c split: if_splits)
  next
    case False
    then have "m1 = m" "s1 = s" by (simp_all add: m1_def s1_def)
    with ih False show ?thesis by (auto simp: c split: if_splits)
  qed
  have high: "M \<le> M' \<and> (\<forall>c \<in> set (c # cs). fst c \<le> M') \<and> (M' = M \<or> M' \<in> fst ` set (c # cs))
       \<and> (if M < M' then e' = Some (M', y) else e' = e)"
  proof (cases "M < a")
    case True
    then have "M1 = a" "e1 = Some (a, y)" by (simp_all add: M1_def e1_def c)
    with ih True show ?thesis by (auto simp: c split: if_splits)
  next
    case False
    then have "M1 = M" "e1 = e" by (simp_all add: M1_def e1_def)
    with ih False show ?thesis by (auto simp: c split: if_splits)
  qed
  from low high show ?case by blast
qed

lemma scan_horizontal_row:
  assumes "set cs = {lo..hi} \<times> {y}" "lo \<le> hi" "1 \<le> lo" "hi \<le> w"
    and "scan_horizontal cs (w + 1, None, 0, None) = (m', s', M', e')"
  shows "s' = Some (lo, y)" "e' = Some (hi, y)"
proof -
  have f: "\<forall>c \<in> set cs. snd c = y" using assms(1) by auto
  have i: "fst ` set cs = {lo..hi}" using assms(1) by auto
  note b = scan_horizontal_bounds [OF f assms(5), unfolded i]
  have m: "(lo, y) \<in> set cs" "(hi, y) \<in> set cs" using assms(1,2) by simp_all
  from b m have "m' \<le> fst (lo, y)" "fst (hi, y) \<le> M'" by blast+
  then have "m' \<le> lo" "hi \<le> M'" by simp_all
  moreover from b assms have "m' \<in> {lo..hi}" "M' \<in> {lo..hi}" by auto
  ultimately have "m' = lo" "M' = hi" by simp_all
  with b assms show "s' = Some (lo, y)" "e' = Some (hi, y)" by simp_all
qed

lemma row_cells:
  fixes lo x hi :: int
  assumes "lo \<le> x" "x \<le> hi"
  shows "set (map (\<lambda>k. (k, y)) [x + 1..hi] @ map (\<lambda>k. (k, y)) (rev [lo..x - 1]) @ [(x, y)])
       = {lo..hi} \<times> {y}"
    and "distinct (map fst (map (\<lambda>k. (k, y)) [x + 1..hi] @ map (\<lambda>k. (k, y)) (rev [lo..x - 1])
           @ [(x, y)]))"
proof -
  have p: "set (map (\<lambda>k. (k, y)) zs) = set zs \<times> {y}" for zs :: "int list"
    by auto
  have "{x + 1..hi} \<union> ({lo..x - 1} \<union> {x}) = {lo..hi}"
    using assms by auto
  then have "{x + 1..hi} \<times> {y} \<union> ({lo..x - 1} \<times> {y} \<union> {(x, y)}) = {lo..hi} \<times> {y}"
    by auto
  then show "set (map (\<lambda>k. (k, y)) [x + 1..hi] @ map (\<lambda>k. (k, y)) (rev [lo..x - 1]) @ [(x, y)])
       = {lo..hi} \<times> {y}"
    unfolding set_append p set_rev set_upto by simp
  have m: "map fst (map (\<lambda>k. (k, y)) zs) = zs" for zs :: "int list"
    by (induction zs) simp_all
  show "distinct (map fst (map (\<lambda>k. (k, y)) [x + 1..hi] @ map (\<lambda>k. (k, y)) (rev [lo..x - 1])
           @ [(x, y)]))"
    unfolding map_append m by auto
qed

lemma find_start_and_end_row:
  assumes r: "horizontal_run self y lo hi" and x: "lo \<le> x" "x \<le> hi"
    and f: "find_start_and_end depth self (x, y) = Inr found"
  shows "found = (Some (lo, y), Some (hi, y))"
proof -
  from f obtain nearby where
    g: "get_all_cells depth self (x, y) (x, y) = Inr nearby"
  proof (cases "get_all_cells depth self (x, y) (x, y)")
    case (Inl e)
    then have "find_start_and_end depth self (x, y) = Inl e"
      unfolding find_start_and_end_def by (simp only: sum.case)
    with f show ?thesis by simp
  next
    case (Inr nearby)
    then show ?thesis by (rule that)
  qed
  define cs where "cs = nearby @ [(x, y)]"
  note u = f [unfolded find_start_and_end_unfold [OF g] cs_def [symmetric]]
  have n: "nearby = map (\<lambda>k. (k, y)) [x + 1..hi] @ map (\<lambda>k. (k, y)) (rev [lo..x - 1])"
    using get_all_cells_row [OF r x g] .
  have s: "set cs = {lo..hi} \<times> {y}" and d: "distinct (map fst cs)"
    unfolding cs_def n append_assoc by (rule row_cells [OF x])+
  from r have b: "1 \<le> lo" "hi \<le> width (board self)"
    by (simp_all add: horizontal_run_def)
  show ?thesis
  proof (cases "length cs = 1")
    case True
    then have "nearby = []" by (simp add: cs_def)
    then have "[x + 1..hi] = []" "[lo..x - 1] = []"
      unfolding n by simp_all
    then have "lo = x" "hi = x" using x by simp_all
    moreover from u True have "found = (Some (x, y), Some (x, y))" by simp
    ultimately show ?thesis by simp
  next
    case False
    then obtain a n' where "nearby = a # n'"
      by (cases nearby) (simp_all add: cs_def)
    moreover obtain b rest where "n' @ [(x, y)] = b # rest"
      by (cases n') simp_all
    ultimately have c: "cs = a # b # rest"
      by (simp add: cs_def)
    from d have "fst a \<noteq> fst b" by (simp add: c)
    then have v: "is_this_ship_vertical cs = Inr False"
      by (simp add: is_this_ship_vertical_def c)
    obtain m' s' M' e' where
      sc: "scan_horizontal cs (width (board self) + 1, None, 0, None) = (m', s', M', e')"
      by (cases "scan_horizontal cs (width (board self) + 1, None, 0, None)") auto
    from x have "lo \<le> hi" by simp
    note p = scan_horizontal_row [OF s this b sc]
    from u False have "found = (s', e')"
      unfolding v sc by simp
    with p show ?thesis by simp
  qed
qed

lemma choice_mem:
  assumes "choice xs rng = Ok (c, rng')"
  shows "c \<in> set xs"
proof -
  from assms have n: "xs \<noteq> []" by (auto simp: choice_def split: if_splits)
  with assms obtain r where c: "c = xs ! nat (r mod int (length xs))"
    by (auto simp: choice_def split: list.splits)
  from n have "0 < int (length xs)" by simp
  from pos_mod_sign [OF this, of r] pos_mod_bound [OF this, of r]
  have "nat (r mod int (length xs)) < length xs" by simp
  then show ?thesis unfolding c by (rule nth_mem)
qed

lemma get_better_target_cases:
  assumes "get_better_target depth self (cell # others) rng = Ok (c, rng')"
  obtains start stop where
    "find_start_and_end depth self cell = Inr (Some start, Some stop)"
    "c \<in> (if fst start = fst stop
           then {(fst start, snd start - 1), (fst stop, snd stop + 1)}
           else {(fst start - 1, snd start), (fst stop + 1, snd stop)})"
proof -
  from assms obtain start stop where
    f: "find_start_and_end depth self cell = Inr (Some start, Some stop)"
    unfolding get_better_target_def
    by (auto split: sum.splits option.splits)
  with assms have "(if fst start = fst stop
       then choice [(fst start, snd start - 1), (fst stop, snd stop + 1)] rng
       else choice [(fst start - 1, snd start), (fst stop + 1, snd stop)] rng) = Ok (c, rng')"
    unfolding get_better_target_def by simp
  then have "c \<in> (if fst start = fst stop
           then {(fst start, snd start - 1), (fst stop, snd stop + 1)}
           else {(fst start - 1, snd start), (fst stop + 1, snd stop)})"
    by (auto split: if_splits dest: choice_mem)
  with f show ?thesis by (rule that)
qed

subsection \<open>The open hits of a memory that play has built\<close>

lemma is_there_a_hunt_flag:
  "is_there_a_hunt self = Inr (there_is_a_hunt, list_of_hits)
    \<Longrightarrow> there_is_a_hunt = (list_of_hits \<noteq> [])"
  by (auto simp: is_there_a_hunt_def split: sum.splits)

lemma sound_memory_finite:
  assumes "sound_memory self"
  shows "\<forall>s \<in> set (sunken_ships self). finite (cells s)"
proof
  fix s assume "s \<in> set (sunken_ships self)"
  with assms have "recorded self s" by (simp add: sound_memory_def)
  then obtain start stop where "Ship_init start stop True Unbounded Unbounded = Inr s"
    unfolding recorded_def by blast
  then show "finite (cells s)" by (rule Ship_init_finite)
qed

lemma select_target_apart:
  assumes s: "sound_memory self"
    and t: "select_target depth self rng = Ok ((target, self'), rng')"
    and m: "ship \<in> set (sunken_ships self)" and c: "c \<in> cells ship"
  shows "c \<noteq> target" "\<not> adjacent c target"
proof -
  from s m have r: "recorded self ship" by (simp add: sound_memory_def)
  note z = select_target_dead_zone [OF t m]
  from z(3) have p: "1 \<le> fst target" "1 \<le> snd target"
    by (simp_all add: is_it_within_bounds_def)
  from z(1) have n: "\<not> (\<exists>d \<in> cells ship. adjacent d target)"
    unfolding is_near_cell_iff [OF recorded_within_bounds [OF r] p] .
  with c show "\<not> adjacent c target" by blast
  show "c \<noteq> target"
  proof
    assume "c = target"
    with c n recorded_lone_cell [OF r] have "target \<in> tracker self" by blast
    with z(2) show False by simp
  qed
qed

lemma open_hits_subset: "set (open_hits self) \<subseteq> set (successful_hits self)"
  by (auto simp: open_hits_def)

lemma closed_hit:
  assumes "c \<in> set (successful_hits self)" "c \<notin> set (open_hits self)"
  obtains ship where "ship \<in> set (sunken_ships self)" "c \<in> cells ship"
  using assms by (auto simp: open_hits_def)

lemma memory_vertical_run:
  assumes s: "sound_memory self" and o: "one_open_run self"
    and e: "set (open_hits self) = {x} \<times> {lo..hi}" and l: "lo \<le> hi"
  shows "vertical_run self x lo hi"
proof -
  from l e open_hits_subset [of self]
  have "(x, lo) \<in> set (successful_hits self)" "(x, hi) \<in> set (successful_hits self)"
    by auto
  with s have "is_it_within_bounds self (x, lo)" "is_it_within_bounds self (x, hi)"
    by (simp_all add: sound_memory_def)
  then have "1 \<le> x \<and> x \<le> width (board self) \<and> 1 \<le> lo \<and> hi \<le> height (board self)"
    by (simp add: is_it_within_bounds_def)
  moreover from e open_hits_subset [of self]
  have "{x} \<times> {lo..hi} \<subseteq> set (successful_hits self)" by simp
  moreover from o have "\<forall>c \<in> set (successful_hits self). c \<notin> {x} \<times> {lo..hi} \<longrightarrow>
            (\<forall>d \<in> {x} \<times> {lo..hi}. \<not> adjacent c d)"
    unfolding one_open_run_def e by blast
  ultimately show ?thesis unfolding vertical_run_def by blast
qed

lemma memory_horizontal_run:
  assumes s: "sound_memory self" and o: "one_open_run self"
    and e: "set (open_hits self) = {lo..hi} \<times> {y}" and l: "lo \<le> hi"
  shows "horizontal_run self y lo hi"
proof -
  from l e open_hits_subset [of self]
  have "(lo, y) \<in> set (successful_hits self)" "(hi, y) \<in> set (successful_hits self)"
    by auto
  with s have "is_it_within_bounds self (lo, y)" "is_it_within_bounds self (hi, y)"
    by (simp_all add: sound_memory_def)
  then have "1 \<le> y \<and> y \<le> height (board self) \<and> 1 \<le> lo \<and> hi \<le> width (board self)"
    by (simp add: is_it_within_bounds_def)
  moreover from e open_hits_subset [of self]
  have "{lo..hi} \<times> {y} \<subseteq> set (successful_hits self)" by simp
  moreover from o have "\<forall>c \<in> set (successful_hits self). c \<notin> {lo..hi} \<times> {y} \<longrightarrow>
            (\<forall>d \<in> {lo..hi} \<times> {y}. \<not> adjacent c d)"
    unfolding one_open_run_def e by blast
  ultimately show ?thesis unfolding horizontal_run_def by blast
qed

text \<open>
  The cell that the hunt proposes: a non-diagonal neighbour of the one open hit, or
  one of the two cells beyond the ends of the run of open hits.
\<close>

lemma hunting_cell_single:
  assumes "hunting_cell depth self random_cell [hit] rng1 = Ok ((True, target), rng2)"
  shows "target \<in> {(fst hit + 1, snd hit), (fst hit - 1, snd hit),
                   (fst hit, snd hit + 1), (fst hit, snd hit - 1)}"
proof -
  from assms have "target \<in> set (get_neighbours_player self hit True)"
    unfolding hunting_cell_def by (auto split: if_splits)
  then show ?thesis by (rule mem_get_neighbours_hunt)
qed

lemma hunting_cell_run:
  assumes h: "hunting_cell depth self random_cell list_of_hits rng1 = Ok ((True, target), rng2)"
    and two: "2 \<le> length list_of_hits"
  shows "(vertical_run self x lo hi \<and> set list_of_hits = {x} \<times> {lo..hi}
            \<longrightarrow> target = (x, lo - 1) \<or> target = (x, hi + 1))
       \<and> (horizontal_run self y lo' hi' \<and> set list_of_hits = {lo'..hi'} \<times> {y} \<and> lo' < hi'
            \<longrightarrow> target = (lo' - 1, y) \<or> target = (hi' + 1, y))"
proof -
  from two obtain first others where c: "list_of_hits = first # others"
    by (cases list_of_hits) simp_all
  from two have "others \<noteq> []" unfolding c by auto
  with h have "get_better_target depth self (first # others) rng1 = Ok (target, rng2)"
    unfolding hunting_cell_def c by (auto split: outcome.splits)
  then obtain start stop where
    f: "find_start_and_end depth self first = Inr (Some start, Some stop)"
    and t: "target \<in> (if fst start = fst stop
           then {(fst start, snd start - 1), (fst stop, snd stop + 1)}
           else {(fst start - 1, snd start), (fst stop + 1, snd stop)})"
    by (rule get_better_target_cases)
  show ?thesis
  proof (intro conjI impI)
    assume "vertical_run self x lo hi \<and> set list_of_hits = {x} \<times> {lo..hi}"
    then have r: "vertical_run self x lo hi" and "first \<in> {x} \<times> {lo..hi}"
      by (auto simp: c)
    then obtain b where b: "first = (x, b)" "lo \<le> b" "b \<le> hi" by auto
    from find_start_and_end_column [OF r b(2,3) f [unfolded b(1)]]
    have "start = (x, lo)" "stop = (x, hi)" by simp_all
    with t show "target = (x, lo - 1) \<or> target = (x, hi + 1)" by simp
  next
    assume a: "horizontal_run self y lo' hi' \<and> set list_of_hits = {lo'..hi'} \<times> {y} \<and> lo' < hi'"
    then have r: "horizontal_run self y lo' hi'" and "first \<in> {lo'..hi'} \<times> {y}"
      by (auto simp: c)
    then obtain b where b: "first = (b, y)" "lo' \<le> b" "b \<le> hi'" by auto
    from find_start_and_end_row [OF r b(2,3) f [unfolded b(1)]]
    have "start = (lo', y)" "stop = (hi', y)" by simp_all
    with t a show "target = (lo' - 1, y) \<or> target = (hi' + 1, y)" by simp
  qed
qed

text \<open>Lists without repetition whose cells are one cell, or a segment of two cells or more.\<close>

lemma distinct_singleton:
  assumes "distinct l" "set l = {c}"
  shows "l = [c]"
proof (cases l)
  case Nil
  with assms show ?thesis by simp
next
  case (Cons a rest)
  with assms have "a = c" "set rest \<subseteq> {c}" "c \<notin> set rest" by auto
  then have "rest = []" by (cases rest) auto
  with Cons \<open>a = c\<close> show ?thesis by simp
qed

lemma distinct_two:
  assumes "distinct l" "a \<in> set l" "b \<in> set l" "a \<noteq> b"
  shows "2 \<le> length l"
proof -
  from assms have "card {a, b} \<le> card (set l)"
    by (intro card_mono) auto
  with assms show ?thesis by (simp add: distinct_card)
qed

lemma select_target_single:
  assumes hc: "hunting_cell depth self random_cell (open_hits self) rng1 = Ok ((True, target), rng2)"
    and d: "distinct (open_hits self)" and e: "set (open_hits self) = {(a, b)}"
  shows "(\<exists>x lo hi. lo \<le> hi \<and> set (open_hits self) = {x} \<times> {lo..hi}
            \<and> (target = (x, lo - 1) \<or> target = (x, hi + 1)))
       \<or> (\<exists>y lo hi. lo \<le> hi \<and> set (open_hits self) = {lo..hi} \<times> {y}
            \<and> (target = (lo - 1, y) \<or> target = (hi + 1, y)))"
proof -
  from d e have "open_hits self = [(a, b)]" by (rule distinct_singleton)
  with hc have "target \<in> {(fst (a, b) + 1, snd (a, b)), (fst (a, b) - 1, snd (a, b)),
                   (fst (a, b), snd (a, b) + 1), (fst (a, b), snd (a, b) - 1)}"
    by (simp only: hunting_cell_single)
  then consider "target = (a + 1, b)" | "target = (a - 1, b)"
    | "target = (a, b + 1)" | "target = (a, b - 1)" by auto
  then show ?thesis
  proof cases
    case 1
    have "a \<le> a \<and> set (open_hits self) = {a..a} \<times> {b}
        \<and> (target = (a - 1, b) \<or> target = (a + 1, b))"
      using e 1 by simp
    then show ?thesis by blast
  next
    case 2
    have "a \<le> a \<and> set (open_hits self) = {a..a} \<times> {b}
        \<and> (target = (a - 1, b) \<or> target = (a + 1, b))"
      using e 2 by simp
    then show ?thesis by blast
  next
    case 3
    have "b \<le> b \<and> set (open_hits self) = {a} \<times> {b..b}
        \<and> (target = (a, b - 1) \<or> target = (a, b + 1))"
      using e 3 by simp
    then show ?thesis by blast
  next
    case 4
    have "b \<le> b \<and> set (open_hits self) = {a} \<times> {b..b}
        \<and> (target = (a, b - 1) \<or> target = (a, b + 1))"
      using e 4 by simp
    then show ?thesis by blast
  qed
qed

lemma select_target_next:
  assumes s: "sound_memory self" and o: "one_open_run self"
    and t: "select_target depth self rng = Ok ((target, self'), rng')"
  shows "target \<notin> set (successful_hits self)"
    and "is_there_a_hunt self = Inr (open_hits self \<noteq> [], open_hits self)"
    and "set (open_hits self) = {}
       \<or> (\<exists>x lo hi. lo \<le> hi \<and> set (open_hits self) = {x} \<times> {lo..hi}
            \<and> (target = (x, lo - 1) \<or> target = (x, hi + 1)))
       \<or> (\<exists>y lo hi. lo \<le> hi \<and> set (open_hits self) = {lo..hi} \<times> {y}
            \<and> (target = (lo - 1, y) \<or> target = (hi + 1, y)))"
proof -
  from t obtain there_is_a_hunt list_of_hits where
    h: "is_there_a_hunt self = Inr (there_is_a_hunt, list_of_hits)"
    and l: "target_loop depth self (are_there_sunken_ships self) there_is_a_hunt list_of_hits rng
       = Ok (target, rng')"
    by (rule select_target_result)
  from o have d: "distinct (successful_hits self)" by (simp add: one_open_run_def)
  then have d': "distinct (open_hits self)" by (simp add: open_hits_def)
  have e: "list_of_hits = open_hits self"
    using d sound_memory_finite [OF s] h by (rule is_there_a_hunt_open_hits)
  note f = is_there_a_hunt_flag [OF h]
  from h show "is_there_a_hunt self = Inr (open_hits self \<noteq> [], open_hits self)"
    unfolding f e .
  note r = target_loop_result [OF l]
  from r s show "target \<notin> set (successful_hits self)"
    by (auto simp: sound_memory_def)
  show "set (open_hits self) = {}
       \<or> (\<exists>x lo hi. lo \<le> hi \<and> set (open_hits self) = {x} \<times> {lo..hi}
            \<and> (target = (x, lo - 1) \<or> target = (x, hi + 1)))
       \<or> (\<exists>y lo hi. lo \<le> hi \<and> set (open_hits self) = {lo..hi} \<times> {y}
            \<and> (target = (lo - 1, y) \<or> target = (hi + 1, y)))"
  proof (cases "open_hits self = []")
    case True
    then show ?thesis by simp
  next
    case False
    with r f e obtain random_cell rng1 rng2 where
      hc: "hunting_cell depth self random_cell (open_hits self) rng1 = Ok ((True, target), rng2)"
      by auto
    from False have "set (open_hits self) \<noteq> {}" by simp
    with o consider (vertical) x lo hi where "lo \<le> hi" "set (open_hits self) = {x} \<times> {lo..hi}"
      | (horizontal) y lo hi where "lo \<le> hi" "set (open_hits self) = {lo..hi} \<times> {y}"
      unfolding one_open_run_def by blast
    then show ?thesis
    proof cases
      case vertical
      show ?thesis
      proof (cases "lo = hi")
        case True
        with vertical have "set (open_hits self) = {(x, lo)}" by simp
        with hc d' have "(\<exists>x lo hi. lo \<le> hi \<and> set (open_hits self) = {x} \<times> {lo..hi}
            \<and> (target = (x, lo - 1) \<or> target = (x, hi + 1)))
         \<or> (\<exists>y lo hi. lo \<le> hi \<and> set (open_hits self) = {lo..hi} \<times> {y}
            \<and> (target = (lo - 1, y) \<or> target = (hi + 1, y)))"
          by (rule select_target_single)
        then show ?thesis by simp
      next
        case False
        with vertical have "(x, lo) \<in> set (open_hits self)" "(x, hi) \<in> set (open_hits self)"
          "(x, lo) \<noteq> (x, hi)" by simp_all
        with d' have two: "2 \<le> length (open_hits self)" by (rule distinct_two)
        note v = memory_vertical_run [OF s o vertical(2,1)]
        from hunting_cell_run [OF hc two, of x lo hi] v vertical
        have "target = (x, lo - 1) \<or> target = (x, hi + 1)" by blast
        with vertical show ?thesis by blast
      qed
    next
      case horizontal
      show ?thesis
      proof (cases "lo = hi")
        case True
        with horizontal have "set (open_hits self) = {(lo, y)}" by simp
        with hc d' have "(\<exists>x lo hi. lo \<le> hi \<and> set (open_hits self) = {x} \<times> {lo..hi}
            \<and> (target = (x, lo - 1) \<or> target = (x, hi + 1)))
         \<or> (\<exists>y lo hi. lo \<le> hi \<and> set (open_hits self) = {lo..hi} \<times> {y}
            \<and> (target = (lo - 1, y) \<or> target = (hi + 1, y)))"
          by (rule select_target_single)
        then show ?thesis by simp
      next
        case False
        with horizontal have lt: "lo < hi" by simp
        with horizontal have "(lo, y) \<in> set (open_hits self)" "(hi, y) \<in> set (open_hits self)"
          "(lo, y) \<noteq> (hi, y)" by simp_all
        with d' have two: "2 \<le> length (open_hits self)" by (rule distinct_two)
        note v = memory_horizontal_run [OF s o horizontal(2,1)]
        from hunting_cell_run [OF hc two, where y = y and lo' = lo and hi' = hi] v horizontal lt
        have "target = (lo - 1, y) \<or> target = (hi + 1, y)" by blast
        with horizontal show ?thesis by blast
      qed
    qed
  qed
qed

lemma run_extended:
  fixes run :: "cell set"
  assumes "run = {}
       \<or> (\<exists>x lo hi. lo \<le> hi \<and> run = {x} \<times> {lo..hi}
            \<and> (target = (x, lo - 1) \<or> target = (x, hi + 1)))
       \<or> (\<exists>y lo hi. lo \<le> hi \<and> run = {lo..hi} \<times> {y}
            \<and> (target = (lo - 1, y) \<or> target = (hi + 1, y)))"
  shows "(\<exists>x lo hi. lo \<le> hi \<and> insert target run = {x} \<times> {lo..hi})
       \<or> (\<exists>y lo hi. lo \<le> hi \<and> insert target run = {lo..hi} \<times> {y})"
proof -
  from assms consider "run = {}"
    | x lo hi where "lo \<le> hi" "run = {x} \<times> {lo..hi}" "target = (x, lo - 1)"
    | x lo hi where "lo \<le> hi" "run = {x} \<times> {lo..hi}" "target = (x, hi + 1)"
    | y lo hi where "lo \<le> hi" "run = {lo..hi} \<times> {y}" "target = (lo - 1, y)"
    | y lo hi where "lo \<le> hi" "run = {lo..hi} \<times> {y}" "target = (hi + 1, y)"
    by blast
  then show ?thesis
  proof cases
    case 1
    have "snd target \<le> snd target \<and> insert target run = {fst target} \<times> {snd target..snd target}"
      using 1 by (cases target) simp
    then show ?thesis by blast
  next
    case 2
    then have "lo - 1 \<le> hi \<and> insert target run = {x} \<times> {lo - 1..hi}" by auto
    then show ?thesis by blast
  next
    case 3
    then have "lo \<le> hi + 1 \<and> insert target run = {x} \<times> {lo..hi + 1}" by auto
    then show ?thesis by blast
  next
    case 4
    then have "lo - 1 \<le> hi \<and> insert target run = {lo - 1..hi} \<times> {y}" by auto
    then show ?thesis by blast
  next
    case 5
    then have "lo \<le> hi + 1 \<and> insert target run = {lo..hi + 1} \<times> {y}" by auto
    then show ?thesis by blast
  qed
qed

text \<open>
  A turn keeps the open hits in one run: a hit that is not a sinking adds to the run
  a cell at one of its ends, and a sinking records the whole run as the sunken ship.
\<close>

lemma hit_keeps_run:
  assumes s: "sound_memory self" and o: "one_open_run self"
    and t: "select_target depth self rng = Ok ((target, aimed), rng')"
  shows "one_open_run (aimed\<lparr>successful_hits := successful_hits aimed @ [target]\<rparr>)"
    and "target \<in> set (open_hits (aimed\<lparr>successful_hits := successful_hits aimed @ [target]\<rparr>))"
proof -
  define hit where "hit = aimed\<lparr>successful_hits := successful_hits aimed @ [target]\<rparr>"
  from t have a: "aimed = self\<lparr>last_target := Some target, tracker := insert target (tracker self)\<rparr>"
    by (rule select_target_result)
  have h: "successful_hits hit = successful_hits self @ [target]"
    and k: "sunken_ships hit = sunken_ships self"
    by (simp_all add: hit_def a)
  note n = select_target_next [OF s o t]
  have "\<forall>ship \<in> set (sunken_ships self). target \<notin> cells ship"
    using select_target_apart(1) [OF s t] by blast
  then have op: "open_hits hit = open_hits self @ [target]"
    by (simp add: open_hits_def h k)
  then show "target \<in> set (open_hits hit)" by simp
  from o n(1) have "distinct (successful_hits hit)"
    by (simp add: h one_open_run_def)
  moreover have "(\<exists>x lo hi. lo \<le> hi \<and> set (open_hits hit) = {x} \<times> {lo..hi})
       \<or> (\<exists>y lo hi. lo \<le> hi \<and> set (open_hits hit) = {lo..hi} \<times> {y})"
    using run_extended [OF n(3)] by (simp add: op)
  moreover have "\<forall>c \<in> set (successful_hits hit). c \<notin> set (open_hits hit) \<longrightarrow>
            (\<forall>d \<in> set (open_hits hit). \<not> adjacent c d)"
  proof (intro ballI impI)
    fix c d assume c: "c \<in> set (successful_hits hit)" "c \<notin> set (open_hits hit)"
      and d: "d \<in> set (open_hits hit)"
    from c have c': "c \<in> set (successful_hits self)" "c \<notin> set (open_hits self)"
      by (auto simp: h op)
    show "\<not> adjacent c d"
    proof (cases "d = target")
      case True
      from c' obtain ship where "ship \<in> set (sunken_ships self)" "c \<in> cells ship"
        by (rule closed_hit)
      from select_target_apart(2) [OF s t this] show ?thesis
        unfolding True .
    next
      case False
      with d have "d \<in> set (open_hits self)" by (simp add: op)
      with o c' show ?thesis unfolding one_open_run_def by blast
    qed
  qed
  ultimately show "one_open_run hit"
    unfolding one_open_run_def by blast
qed

lemma sink_keeps_run:
  assumes s: "sound_memory self" and o: "one_open_run self"
    and m: "target \<in> set (open_hits self)"
    and f: "find_start_and_end depth self target = Inr (Some start, Some stop)"
    and i: "Ship_init start stop True bw bh = Inr ship"
  shows "one_open_run (self\<lparr>sunken_ships := sunken_ships self @ [ship]\<rparr>)"
proof -
  define sunk where "sunk = self\<lparr>sunken_ships := sunken_ships self @ [ship]\<rparr>"
  have h: "successful_hits sunk = successful_hits self"
    and k: "sunken_ships sunk = sunken_ships self @ [ship]"
    by (simp_all add: sunk_def)
  from m have "set (open_hits self) \<noteq> {}" by auto
  with o consider (vertical) x lo hi where "lo \<le> hi" "set (open_hits self) = {x} \<times> {lo..hi}"
    | (horizontal) y lo hi where "lo \<le> hi" "set (open_hits self) = {lo..hi} \<times> {y}"
    unfolding one_open_run_def by blast
  then have c: "cells ship = set (open_hits self)"
  proof cases
    case vertical
    with m obtain b where b: "target = (x, b)" "lo \<le> b" "b \<le> hi" by auto
    note v = memory_vertical_run [OF s o vertical(2,1)]
    from find_start_and_end_column [OF v b(2,3) f [unfolded b(1)]]
    have "start = (x, lo)" "stop = (x, hi)" by simp_all
    with Ship_init_Inr [OF i] vertical(1)
    have "x_start ship = x" "x_end ship = x" "y_start ship = lo" "y_end ship = hi"
      by simp_all
    with Ship_init_cells [OF i] vertical(2) show ?thesis by simp
  next
    case horizontal
    with m obtain b where b: "target = (b, y)" "lo \<le> b" "b \<le> hi" by auto
    note v = memory_horizontal_run [OF s o horizontal(2,1)]
    from find_start_and_end_row [OF v b(2,3) f [unfolded b(1)]]
    have "start = (lo, y)" "stop = (hi, y)" by simp_all
    with Ship_init_Inr [OF i] horizontal(1)
    have "x_start ship = lo" "x_end ship = hi" "y_start ship = y" "y_end ship = y"
      by simp_all
    with Ship_init_cells [OF i] horizontal(2) show ?thesis by simp
  qed
  have "set (open_hits sunk) = {}"
    unfolding open_hits_def h k using c by (auto simp: open_hits_def)
  with o show "one_open_run sunk"
    unfolding one_open_run_def h by simp
qed

lemma one_open_run_fields:
  "successful_hits a = successful_hits b \<Longrightarrow> sunken_ships a = sunken_ships b
    \<Longrightarrow> one_open_run a = one_open_run b"
  by (simp add: one_open_run_def open_hits_def)

lemma turn_one_open_run:
  assumes "turn self informed" "sound_memory self" "one_open_run self"
  shows "one_open_run informed"
  using assms(1)
proof (cases rule: turn.cases)
  case (1 depth rng target aimed rng' depth' is_ship_hit has_ship_sunk)
  note s = assms(2) and o = assms(3)
  from 1(1) have a: "aimed = self\<lparr>last_target := Some target, tracker := insert target (tracker self)\<rparr>"
    by (rule select_target_result)
  note sa = select_target_sound(1) [OF s 1(1)]
  from 1(2) show ?thesis
  proof (cases rule: receive_result_cases)
    case miss
    have "one_open_run aimed = one_open_run self"
      by (rule one_open_run_fields) (simp_all add: a)
    with o miss show ?thesis by simp
  next
    case (hit tg)
    with a have "tg = target" by simp
    with hit hit_keeps_run(1) [OF s o 1(1)] show ?thesis by simp
  next
    case (sunk tg start stop ship)
    with a have e: "tg = target" by simp
    define one where "one = aimed\<lparr>successful_hits := successful_hits aimed @ [target]\<rparr>"
    have "receive_result 0 aimed True False = Inr one"
      using sunk(3) by (simp add: receive_result_def one_def e)
    from receive_result_sound(1) [OF sa this] have s1: "sound_memory one" .
    note h = hit_keeps_run [OF s o 1(1), folded one_def]
    from sunk(4) have f: "find_start_and_end depth' one target = Inr (Some start, Some stop)"
      by (simp add: one_def e)
    from sink_keeps_run [OF s1 h(1) h(2) f sunk(5)] sunk(6) show ?thesis
      by (simp add: one_def e)
  qed
qed

lemma turns_one_open_run:
  assumes "turns self later" "sound_memory self" "one_open_run self"
  shows "sound_memory later \<and> one_open_run later"
  using assms(1) unfolding turns_def
proof (induction rule: rtranclp_induct)
  case base
  from assms(2,3) show ?case by simp
next
  case (step y z)
  with turn_sound [OF step(2)] turn_one_open_run [OF step(2)] show ?case by blast
qed

lemma AutomaticPlayer_init_one_open_run: "one_open_run (AutomaticPlayer_init own_board)"
  by (simp add: one_open_run_def open_hits_def AutomaticPlayer_init_def)

lemma Min_segment: "lo \<le> hi \<Longrightarrow> Min {lo..hi} = lo" for lo hi :: int
  by (rule Min_eqI) simp_all

lemma Max_segment: "lo \<le> hi \<Longrightarrow> Max {lo..hi} = hi" for lo hi :: int
  by (rule Max_eqI) simp_all

lemma column_shape:
  fixes l :: "cell list"
  assumes e: "set l = {x} \<times> {lo..hi}" and le: "lo \<le> hi" and ne: "l \<noteq> []"
  shows "fst (hd l) = x" "Min (snd ` set l) = lo" "Max (snd ` set l) = hi"
    "\<forall>c \<in> set l. fst c = fst (hd l)"
proof -
  from ne have "hd l \<in> set l" by simp
  then show x: "fst (hd l) = x" unfolding e by auto
  from le have i: "snd ` ({x} \<times> {lo..hi}) = {lo..hi}" by force
  show "Min (snd ` set l) = lo" unfolding e i using le by (rule Min_segment)
  show "Max (snd ` set l) = hi" unfolding e i using le by (rule Max_segment)
  show "\<forall>c \<in> set l. fst c = fst (hd l)" unfolding x e by auto
qed

lemma row_shape:
  fixes l :: "cell list"
  assumes e: "set l = {lo..hi} \<times> {y}" and lt: "lo < hi" and ne: "l \<noteq> []"
  shows "snd (hd l) = y" "Min (fst ` set l) = lo" "Max (fst ` set l) = hi"
    "\<forall>c \<in> set l. snd c = snd (hd l)" "\<not> (\<forall>c \<in> set l. fst c = fst (hd l))"
proof -
  from lt have le: "lo \<le> hi" by simp
  from ne have "hd l \<in> set l" by simp
  then show y: "snd (hd l) = y" unfolding e by auto
  from le have i: "fst ` ({lo..hi} \<times> {y}) = {lo..hi}" by force
  show "Min (fst ` set l) = lo" unfolding e i using le by (rule Min_segment)
  show "Max (fst ` set l) = hi" unfolding e i using le by (rule Max_segment)
  show "\<forall>c \<in> set l. snd c = snd (hd l)" unfolding y e by auto
  show "\<not> (\<forall>c \<in> set l. fst c = fst (hd l))"
  proof
    assume a: "\<forall>c \<in> set l. fst c = fst (hd l)"
    from le have "(lo, y) \<in> set l" "(hi, y) \<in> set l" unfolding e by simp_all
    with a have "fst (lo, y) = fst (hd l)" "fst (hi, y) = fst (hd l)" by blast+
    with lt show False by simp
  qed
qed

text \<open>
  Claim C4. Take a memory that play has built (any number of turns from a new
  \<open>AutomaticPlayer\<close>) and that holds two open hits or more; the open hits are the
  list that \<open>is_there_a_hunt\<close> computes. If they all lie in one column, a cell
  returned by \<open>select_target\<close> is the cell just before the lowest of them or the cell
  just after the highest of them in that column. Otherwise they all lie in one row,
  and the cell returned is the cell just before the leftmost of them or the cell just
  after the rightmost of them in that row. The hypothesis on the memory is used:
  \<open>find_start_and_end\<close> searches the recorded hits from the first open hit through
  adjacent cells, and so finds the two ends of the open hits when these are the cells
  of one segment with no other recorded hit next to it, as in every memory that play
  builds (\<open>turns_one_open_run\<close>).
\<close>

theorem open_line_targets_beyond_ends:
  assumes "turns (AutomaticPlayer_init own_board) self"
    and "select_target depth self rng = Ok ((target, self'), rng')"
    and "2 \<le> length (open_hits self)"
  shows "is_there_a_hunt self = Inr (True, open_hits self)
    \<and> ((\<forall>c \<in> set (open_hits self). fst c = fst (hd (open_hits self))) \<longrightarrow>
          target = (fst (hd (open_hits self)), Min (snd ` set (open_hits self)) - 1)
        \<or> target = (fst (hd (open_hits self)), Max (snd ` set (open_hits self)) + 1))
    \<and> (\<not> (\<forall>c \<in> set (open_hits self). fst c = fst (hd (open_hits self))) \<longrightarrow>
          (\<forall>c \<in> set (open_hits self). snd c = snd (hd (open_hits self)))
        \<and> (target = (Min (fst ` set (open_hits self)) - 1, snd (hd (open_hits self)))
         \<or> target = (Max (fst ` set (open_hits self)) + 1, snd (hd (open_hits self)))))"
proof -
  from turns_one_open_run [OF assms(1) AutomaticPlayer_init_sound AutomaticPlayer_init_one_open_run]
  have s: "sound_memory self" and o: "one_open_run self" by simp_all
  note n = select_target_next [OF s o assms(2)]
  from assms(3) have ne: "open_hits self \<noteq> []" by auto
  then have ne': "set (open_hits self) \<noteq> {}" by simp
  from o have "distinct (open_hits self)" by (simp add: one_open_run_def open_hits_def)
  with assms(3) have card: "2 \<le> card (set (open_hits self))"
    by (simp add: distinct_card)
  from ne n(2) have one: "is_there_a_hunt self = Inr (True, open_hits self)" by simp
  from ne' n(3) consider
    (vertical) x lo hi where "lo \<le> hi" "set (open_hits self) = {x} \<times> {lo..hi}"
      "target = (x, lo - 1) \<or> target = (x, hi + 1)"
    | (horizontal) y lo hi where "lo \<le> hi" "set (open_hits self) = {lo..hi} \<times> {y}"
      "target = (lo - 1, y) \<or> target = (hi + 1, y)"
    by blast
  then have two: "((\<forall>c \<in> set (open_hits self). fst c = fst (hd (open_hits self))) \<longrightarrow>
          target = (fst (hd (open_hits self)), Min (snd ` set (open_hits self)) - 1)
        \<or> target = (fst (hd (open_hits self)), Max (snd ` set (open_hits self)) + 1))
    \<and> (\<not> (\<forall>c \<in> set (open_hits self). fst c = fst (hd (open_hits self))) \<longrightarrow>
          (\<forall>c \<in> set (open_hits self). snd c = snd (hd (open_hits self)))
        \<and> (target = (Min (fst ` set (open_hits self)) - 1, snd (hd (open_hits self)))
         \<or> target = (Max (fst ` set (open_hits self)) + 1, snd (hd (open_hits self)))))"
  proof cases
    case vertical
    note c = column_shape [OF vertical(2,1) ne]
    from vertical(3) have "target = (fst (hd (open_hits self)), Min (snd ` set (open_hits self)) - 1)
        \<or> target = (fst (hd (open_hits self)), Max (snd ` set (open_hits self)) + 1)"
      unfolding c(1,2,3) .
    with c(4) show ?thesis by blast
  next
    case horizontal
    have "lo \<noteq> hi"
    proof
      assume "lo = hi"
      then have "card (set (open_hits self)) = 1" unfolding horizontal(2) by simp
      with card show False by simp
    qed
    with horizontal(1) have lt: "lo < hi" by simp
    note r = row_shape [OF horizontal(2) lt ne]
    from horizontal(3) have "target = (Min (fst ` set (open_hits self)) - 1, snd (hd (open_hits self)))
         \<or> target = (Max (fst ` set (open_hits self)) + 1, snd (hd (open_hits self)))"
      unfolding r(1,2,3) .
    with r(4,5) show ?thesis by blast
  qed
  from one two show ?thesis by (rule conjI)
qed

theorem open_line_targets_beyond_ends_witness:
  "turns (AutomaticPlayer_init \<lparr>ships = [], width = 10, height = 10\<rparr>)
     \<lparr>board = \<lparr>ships = [], width = 10, height = 10\<rparr>, tracker = {(3, 4), (3, 3)},
      sunken_ships = [], successful_hits = [(3, 3), (3, 4)], last_target = Some (3, 4)\<rparr>
   \<and> open_hits
     \<lparr>board = \<lparr>ships = [], width = 10, height = 10\<rparr>, tracker = {(3, 4), (3, 3)},
      sunken_ships = [], successful_hits = [(3, 3), (3, 4)], last_target = Some (3, 4)\<rparr>
     = [(3, 3), (3, 4)]
   \<and> select_target 1000
     \<lparr>board = \<lparr>ships = [], width = 10, height = 10\<rparr>, tracker = {(3, 4), (3, 3)},
      sunken_ships = [], successful_hits = [(3, 3), (3, 4)], last_target = Some (3, 4)\<rparr>
     [0, 0, 1]
     = Ok (((3, 5),
            \<lparr>board = \<lparr>ships = [], width = 10, height = 10\<rparr>, tracker = {(3, 5), (3, 4), (3, 3)},
             sunken_ships = [], successful_hits = [(3, 3), (3, 4)], last_target = Some (3, 5)\<rparr>),
           [])
   \<and> is_there_a_hunt
     \<lparr>board = \<lparr>ships = [], width = 10, height = 10\<rparr>, tracker = {(3, 4), (3, 3)},
      sunken_ships = [], successful_hits = [(3, 3), (3, 4)], last_target = Some (3, 4)\<rparr>
     = Inr (True, [(3, 3), (3, 4)])
   \<and> ((3 :: int, 5 :: int) = (fst (hd [(3 :: int, 3 :: int), (3, 4)]),
                              Min (snd ` set [(3 :: int, 3 :: int), (3, 4)]) - 1)
      \<or> (3 :: int, 5 :: int) = (fst (hd [(3 :: int, 3 :: int), (3, 4)]),
                              Max (snd ` set [(3 :: int, 3 :: int), (3, 4)]) + 1))
   \<and> turns (AutomaticPlayer_init \<lparr>ships = [], width = 10, height = 10\<rparr>)
     \<lparr>board = \<lparr>ships = [], width = 10, height = 10\<rparr>, tracker = {(4, 3), (3, 3)},
      sunken_ships = [], successful_hits = [(3, 3), (4, 3)], last_target = Some (4, 3)\<rparr>
   \<and> select_target 1000
     \<lparr>board = \<lparr>ships = [], width = 10, height = 10\<rparr>, tracker = {(4, 3), (3, 3)},
      sunken_ships = [], successful_hits = [(3, 3), (4, 3)], last_target = Some (4, 3)\<rparr>
     [0, 0, 0]
     = Ok (((2, 3),
            \<lparr>board = \<lparr>ships = [], width = 10, height = 10\<rparr>, tracker = {(2, 3), (4, 3), (3, 3)},
             sunken_ships = [], successful_hits = [(3, 3), (4, 3)], last_target = Some (2, 3)\<rparr>),
           [])
   \<and> ((2 :: int, 3 :: int) = (Min (fst ` set [(3 :: int, 3 :: int), (4, 3)]) - 1,
                              snd (hd [(3 :: int, 3 :: int), (4, 3)]))
      \<or> (2 :: int, 3 :: int) = (Max (fst ` set [(3 :: int, 3 :: int), (4, 3)]) + 1,
                              snd (hd [(3 :: int, 3 :: int), (4, 3)])))"
proof -
  define b where "b = \<lparr>ships = [], width = 10, height = 10\<rparr>"
  define aimed where "aimed = \<lparr>board = b, tracker = {(3 :: int, 3 :: int)}, sunken_ships = [],
      successful_hits = [], last_target = Some (3, 3)\<rparr>"
  define p1 where "p1 = \<lparr>board = b, tracker = {(3 :: int, 3 :: int)}, sunken_ships = [],
      successful_hits = [(3, 3)], last_target = Some (3, 3)\<rparr>"
  define av where "av = \<lparr>board = b, tracker = {(3 :: int, 4 :: int), (3, 3)}, sunken_ships = [],
      successful_hits = [(3, 3)], last_target = Some (3, 4)\<rparr>"
  define pv where "pv = \<lparr>board = b, tracker = {(3 :: int, 4 :: int), (3, 3)}, sunken_ships = [],
      successful_hits = [(3, 3), (3, 4)], last_target = Some (3, 4)\<rparr>"
  define pv' where "pv' = \<lparr>board = b, tracker = {(3 :: int, 5 :: int), (3, 4), (3, 3)},
      sunken_ships = [], successful_hits = [(3, 3), (3, 4)], last_target = Some (3, 5)\<rparr>"
  define ah where "ah = \<lparr>board = b, tracker = {(4 :: int, 3 :: int), (3, 3)}, sunken_ships = [],
      successful_hits = [(3, 3)], last_target = Some (4, 3)\<rparr>"
  define ph where "ph = \<lparr>board = b, tracker = {(4 :: int, 3 :: int), (3, 3)}, sunken_ships = [],
      successful_hits = [(3, 3), (4, 3)], last_target = Some (4, 3)\<rparr>"
  define ph' where "ph' = \<lparr>board = b, tracker = {(2 :: int, 3 :: int), (4, 3), (3, 3)},
      sunken_ships = [], successful_hits = [(3, 3), (4, 3)], last_target = Some (2, 3)\<rparr>"
  have "select_target 10 (AutomaticPlayer_init b) [2, 2] = Ok (((3, 3), aimed), [])"
    unfolding b_def aimed_def by code_simp
  moreover have "receive_result 10 aimed True False = Inr p1"
    unfolding b_def aimed_def p1_def by code_simp
  ultimately have t1: "turn (AutomaticPlayer_init b) p1"
    by (rule turn.intros)
  have "select_target 10 p1 [2, 3] = Ok (((3, 4), av), [])"
    unfolding b_def p1_def av_def by code_simp
  moreover have "receive_result 10 av True False = Inr pv"
    unfolding b_def av_def pv_def by code_simp
  ultimately have "turn p1 pv"
    by (rule turn.intros)
  with t1 have tv: "turns (AutomaticPlayer_init b) pv"
    unfolding turns_def by (simp only: rtranclp.intros)
  have "select_target 10 p1 [3, 2] = Ok (((4, 3), ah), [])"
    unfolding b_def p1_def ah_def by code_simp
  moreover have "receive_result 10 ah True False = Inr ph"
    unfolding b_def ah_def ph_def by code_simp
  ultimately have "turn p1 ph"
    by (rule turn.intros)
  with t1 have th: "turns (AutomaticPlayer_init b) ph"
    unfolding turns_def by (simp only: rtranclp.intros)
  have ov: "open_hits pv = [(3, 3), (3, 4)]"
    by (simp add: open_hits_def pv_def)
  have oh: "open_hits ph = [(3, 3), (4, 3)]"
    by (simp add: open_hits_def ph_def)
  have sv: "select_target 1000 pv [0, 0, 1] = Ok (((3, 5), pv'), [])"
    unfolding b_def pv_def pv'_def by code_simp
  have sh: "select_target 1000 ph [0, 0, 0] = Ok (((2, 3), ph'), [])"
    unfolding b_def ph_def ph'_def by code_simp
  have lv: "2 \<le> length (open_hits pv)" by (simp add: ov)
  have lh: "2 \<le> length (open_hits ph)" by (simp add: oh)
  note v = open_line_targets_beyond_ends [OF tv sv lv, unfolded ov]
  note h = open_line_targets_beyond_ends [OF th sh lh, unfolded oh]
  from v have v1: "is_there_a_hunt pv = Inr (True, [(3, 3), (3, 4)])" by (rule conjunct1)
  have "\<forall>c \<in> set [(3 :: int, 3 :: int), (3, 4)]. fst c = fst (hd [(3 :: int, 3 :: int), (3, 4)])"
    by simp
  with v have v2: "(3 :: int, 5 :: int) = (fst (hd [(3 :: int, 3 :: int), (3, 4)]),
                              Min (snd ` set [(3 :: int, 3 :: int), (3, 4)]) - 1)
      \<or> (3 :: int, 5 :: int) = (fst (hd [(3 :: int, 3 :: int), (3, 4)]),
                              Max (snd ` set [(3 :: int, 3 :: int), (3, 4)]) + 1)"
    by blast
  have "\<not> (\<forall>c \<in> set [(3 :: int, 3 :: int), (4, 3)]. fst c = fst (hd [(3 :: int, 3 :: int), (4, 3)]))"
    by simp
  with h have h2: "(2 :: int, 3 :: int) = (Min (fst ` set [(3 :: int, 3 :: int), (4, 3)]) - 1,
                              snd (hd [(3 :: int, 3 :: int), (4, 3)]))
      \<or> (2 :: int, 3 :: int) = (Max (fst ` set [(3 :: int, 3 :: int), (4, 3)]) + 1,
                              snd (hd [(3 :: int, 3 :: int), (4, 3)]))"
    by blast
  from tv ov sv v1 v2 th sh h2 show ?thesis
    unfolding b_def pv_def pv'_def ph_def ph'_def by (intro conjI)
qed


end
